theory Spec2Isabelle
  imports Main "HOL-Library.Word"
begin

section \<open>Colours, rotation states and the shape catalogue\<close>

text \<open>
  The embedding follows \<^verbatim>\<open>src/tetris.cpp\<close>. Coordinates are C \<^verbatim>\<open>int\<close>s and are
  modelled as \<^typ>\<open>int\<close>: signed overflow is undefined in C++, and the pieces of the game stay
  within a few cells of the field. Values of type \<^verbatim>\<open>size_t\<close> are \<^typ>\<open>nat\<close>; the
  conversions between the two that the source performs implicitly are written out
  (\<open>size_t_of_int\<close>, \<open>int_of_size_t\<close> below).
\<close>

datatype Color = BLACK | RED | GREEN | ORANGE | BLUE | PURPLE | LIGHT_BLUE | WHITE

datatype Rot = ROT0 | ROT90 | ROT180 | ROT270

text \<open>The template argument of \<^verbatim>\<open>BlockImpl<T>\<close>: one of the seven shape structs.\<close>

datatype Shape = BlockShape0 | BlockShape1 | BlockShape2 | BlockShape3
  | BlockShape4 | BlockShape5 | BlockShape6

fun W :: "Shape \<Rightarrow> int" where
  "W BlockShape0 = 4"
| "W BlockShape1 = 3"
| "W BlockShape2 = 3"
| "W BlockShape3 = 2"
| "W BlockShape4 = 3"
| "W BlockShape5 = 3"
| "W BlockShape6 = 3"

fun H :: "Shape \<Rightarrow> int" where
  "H BlockShape0 = 4"
| "H BlockShape1 = 3"
| "H BlockShape2 = 3"
| "H BlockShape3 = 2"
| "H BlockShape4 = 3"
| "H BlockShape5 = 3"
| "H BlockShape6 = 3"

text \<open>\<^verbatim>\<open>char SHAPE[H][W]\<close>: the rows of the mask, top row first.\<close>

fun SHAPE :: "Shape \<Rightarrow> nat list list" where
  "SHAPE BlockShape0 =
     [ [0, 0, 0, 0],
      [1, 1, 1, 1],
      [0, 0, 0, 0],
      [0, 0, 0, 0]]"
| "SHAPE BlockShape1 =
     [ [1, 0, 0],
      [1, 1, 1],
      [0, 0, 0]]"
| "SHAPE BlockShape2 =
     [ [0, 0, 1],
      [1, 1, 1],
      [0, 0, 0]]"
| "SHAPE BlockShape3 =
     [ [1, 1],
      [1, 1]]"
| "SHAPE BlockShape4 =
     [ [0, 1, 1],
      [1, 1, 0],
      [0, 0, 0]]"
| "SHAPE BlockShape5 =
     [ [0, 1, 0],
      [1, 1, 1],
      [0, 0, 0]]"
| "SHAPE BlockShape6 =
     [ [1, 1, 0],
      [0, 1, 1],
      [0, 0, 0]]"

fun COL :: "Shape \<Rightarrow> Color" where
  "COL BlockShape0 = LIGHT_BLUE"
| "COL BlockShape1 = BLUE"
| "COL BlockShape2 = ORANGE"
| "COL BlockShape3 = WHITE"
| "COL BlockShape4 = GREEN"
| "COL BlockShape5 = PURPLE"
| "COL BlockShape6 = RED"

text \<open>
  Reading \<^verbatim>\<open>Shape::SHAPE[i][j]\<close> and converting the \<^verbatim>\<open>char\<close> to \<^verbatim>\<open>bool\<close>. An index
  outside the declared array bounds is undefined behaviour in C++: the model answers
  \<open>None\<close> there.
\<close>

definition SHAPE_at :: "Shape \<Rightarrow> int \<Rightarrow> int \<Rightarrow> bool option" where
  "SHAPE_at s i j =
     (if 0 \<le> i \<and> i < H s \<and> 0 \<le> j \<and> j < W s
      then Some (SHAPE s ! nat i ! nat j \<noteq> 0)
      else None)"

section \<open>Block\<close>

text \<open>
  A \<^verbatim>\<open>BlockImpl<T>\<close> object: the members \<^verbatim>\<open>m_x\<close>, \<^verbatim>\<open>m_y\<close>, \<^verbatim>\<open>m_rot\<close> of the base class
  \<^verbatim>\<open>Block\<close> and the dynamic type, which fixes the shape struct.
\<close>

record Block =
  shape :: Shape
  m_x :: int
  m_y :: int
  m_rot :: Rot

definition setPos :: "int \<Rightarrow> int \<Rightarrow> Block \<Rightarrow> Block" where
  "setPos x y b = b\<lparr>m_x := x, m_y := y\<rparr>"

definition move :: "int \<Rightarrow> int \<Rightarrow> Block \<Rightarrow> Block" where
  "move dx dy b = setPos (m_x b + dx) (m_y b + dy) b"

text \<open>
  The two casts of \<^verbatim>\<open>Block::rotate\<close>, enumerator to \<^verbatim>\<open>int\<close> and back; the method is
  \<open>rotate_Block\<close> here, the name \<open>rotate\<close> being taken by the list library.
\<close>

fun int_of_Rot :: "Rot \<Rightarrow> int" where
  "int_of_Rot ROT0 = 0"
| "int_of_Rot ROT90 = 1"
| "int_of_Rot ROT180 = 2"
| "int_of_Rot ROT270 = 3"

definition Rot_of_int :: "int \<Rightarrow> Rot" where
  "Rot_of_int i = (if i = 0 then ROT0 else if i = 1 then ROT90
                   else if i = 2 then ROT180 else ROT270)"

definition rotate_Block :: "Block \<Rightarrow> Block" where
  "rotate_Block b = b\<lparr>m_rot := Rot_of_int ((int_of_Rot (m_rot b) + 1) mod 4)\<rparr>"

definition W_L :: "Shape \<Rightarrow> int" where "W_L s = W s div 2"
definition W_R :: "Shape \<Rightarrow> int" where "W_R s = W s - W_L s"
definition H_L :: "Shape \<Rightarrow> int" where "H_L s = H s div 2"
definition H_R :: "Shape \<Rightarrow> int" where "H_R s = H s - H_L s"

text \<open>\<^verbatim>\<open>getRange(&sx, &sy, &ex, &ey)\<close>: the four out-parameters, in that order.\<close>

definition getRange :: "Block \<Rightarrow> int \<times> int \<times> int \<times> int" where
  "getRange b =
     (let sx0 = - W_L (shape b);
          sy0 = - H_L (shape b);
          ex0 = W_R (shape b) - 1;
          ey0 = H_R (shape b) - 1
      in if m_rot b = ROT0 \<or> m_rot b = ROT180
         then (m_x b + sx0, m_y b + sy0, m_x b + ex0, m_y b + ey0)
         else (m_x b + sy0, m_y b + sx0, m_x b + ey0, m_y b + ex0))"

text \<open>
  The pair of subscripts \<^verbatim>\<open>[i][j]\<close> that \<^verbatim>\<open>exist(x, y)\<close> applies to \<^verbatim>\<open>SHAPE\<close>, one
  branch per rotation state.
\<close>

definition mask_idx :: "Block \<Rightarrow> int \<Rightarrow> int \<Rightarrow> int \<times> int" where
  "mask_idx b x y =
     (let x0_idx = x - (m_x b - W_L (shape b));
          y0_idx = y - (m_y b - H_L (shape b))
      in case m_rot b of
           ROT0 \<Rightarrow> (y0_idx, x0_idx)
         | ROT90 \<Rightarrow> (x0_idx, H (shape b) - y0_idx - 1)
         | ROT180 \<Rightarrow> (H (shape b) - y0_idx - 1, W (shape b) - x0_idx - 1)
         | ROT270 \<Rightarrow> (W (shape b) - x0_idx - 1, y0_idx))"

definition exist :: "Block \<Rightarrow> int \<Rightarrow> int \<Rightarrow> bool option" where
  "exist b x y = (case mask_idx b x y of (i, j) \<Rightarrow> SHAPE_at (shape b) i j)"

definition getColor :: "Block \<Rightarrow> Color" where
  "getColor b = COL (shape b)"

text \<open>Membership of a cell in the inclusive rectangle that \<open>getRange\<close> returns.\<close>

definition in_range :: "Block \<Rightarrow> int \<Rightarrow> int \<Rightarrow> bool" where
  "in_range b x y =
     (case getRange b of (sx, sy, ex, ey) \<Rightarrow> sx \<le> x \<and> x \<le> ex \<and> sy \<le> y \<and> y \<le> ey)"

text \<open>Whether a row, or a column, of the rectangle holds an occupied cell.\<close>

definition occupied_in_row :: "Block \<Rightarrow> int \<Rightarrow> bool" where
  "occupied_in_row b y =
     (case getRange b of (sx, sy, ex, ey) \<Rightarrow> list_ex (\<lambda>x. exist b x y = Some True) [sx..ex])"

definition occupied_in_col :: "Block \<Rightarrow> int \<Rightarrow> bool" where
  "occupied_in_col b x =
     (case getRange b of (sx, sy, ex, ey) \<Rightarrow> list_ex (\<lambda>y. exist b x y = Some True) [sy..ey])"

definition edges_occupied :: "Block \<Rightarrow> bool" where
  "edges_occupied b =
     (case getRange b of (sx, sy, ex, ey) \<Rightarrow>
        occupied_in_row b sy \<and> occupied_in_row b ey \<and>
        occupied_in_col b sx \<and> occupied_in_col b ex)"

section \<open>BlockMap\<close>

text \<open>
  What can go wrong at run time: \<open>OutOfRange\<close> is a subscript outside an array or outside the
  vector \<^verbatim>\<open>m_blocks\<close> (undefined behaviour), \<open>NoReturn\<close> a loop whose condition can never
  become false, \<open>AssertFailed\<close> a failed \<^verbatim>\<open>assert\<close>.
\<close>

datatype fault = OutOfRange | NoReturn | AssertFailed

text \<open>
  The implicit conversions between \<^verbatim>\<open>int\<close> (32 bits, two's complement) and \<^verbatim>\<open>size_t\<close>
  (64 bits, unsigned), both modular. Arithmetic in \<^verbatim>\<open>size_t\<close> is arithmetic on integers
  followed by \<open>size_t_of_int\<close>, which reduces modulo \<open>2 ^ 64\<close>.
\<close>

definition size_t_of_int :: "int \<Rightarrow> nat" where
  "size_t_of_int i = nat (i mod 2 ^ 64)"

definition int_of_size_t :: "nat \<Rightarrow> int" where
  "int_of_size_t n = (int n + 2 ^ 31) mod 2 ^ 32 - 2 ^ 31"


record BlockMap =
  m_w :: nat
  m_h :: nat
  m_blocks :: "Color list"

text \<open>The constructor \<^verbatim>\<open>BlockMap(w, h)\<close>: a vector of \<^verbatim>\<open>w * h\<close> cells, all \<open>BLACK\<close>.\<close>

definition new_BlockMap :: "nat \<Rightarrow> nat \<Rightarrow> BlockMap" where
  "new_BlockMap w h =
     \<lparr>m_w = w, m_h = h, m_blocks = replicate (size_t_of_int (int w * int h)) BLACK\<rparr>"

text \<open>
  \<^verbatim>\<open>get(int x, int y)\<close> subscripts the vector with \<^verbatim>\<open>y * m_w + x\<close>, computed in \<^verbatim>\<open>size_t\<close>.
  \<open>get\<close> is the read through the returned reference, \<open>set_at\<close> the assignment through it.
\<close>

definition get_idx :: "BlockMap \<Rightarrow> int \<Rightarrow> int \<Rightarrow> nat" where
  "get_idx bm x y =
     size_t_of_int (int (size_t_of_int y) * int (m_w bm) + int (size_t_of_int x))"

definition get :: "BlockMap \<Rightarrow> int \<Rightarrow> int \<Rightarrow> fault + Color" where
  "get bm x y =
     (let i = get_idx bm x y
      in if i < length (m_blocks bm) then Inr (m_blocks bm ! i) else Inl OutOfRange)"

definition set_at :: "BlockMap \<Rightarrow> int \<Rightarrow> int \<Rightarrow> Color \<Rightarrow> fault + BlockMap" where
  "set_at bm x y c =
     (let i = get_idx bm x y
      in if i < length (m_blocks bm) then Inr (bm\<lparr>m_blocks := (m_blocks bm)[i := c]\<rparr>)
         else Inl OutOfRange)"

text \<open>\<^verbatim>\<open>BlockMap::exist\<close>: the colour cast to \<^verbatim>\<open>bool\<close>, \<open>BLACK\<close> being 0.\<close>

definition exist_BlockMap :: "BlockMap \<Rightarrow> int \<Rightarrow> int \<Rightarrow> fault + bool" where
  "exist_BlockMap bm x y = (case get bm x y of Inl e \<Rightarrow> Inl e | Inr c \<Rightarrow> Inr (c \<noteq> BLACK))"

subsection \<open>isPuttable\<close>

text \<open>
  The cells visited by \<^verbatim>\<open>for (y = sy; y <= ey; y++) for (x = sx; x <= ex; x++)\<close>, in the
  order of the visit.
\<close>

definition range_cells :: "int \<Rightarrow> int \<Rightarrow> int \<Rightarrow> int \<Rightarrow> (int \<times> int) list" where
  "range_cells sx sy ex ey = concat (map (\<lambda>y. map (\<lambda>x. (x, y)) [sx..ex]) [sy..ey])"

text \<open>
  The body of the double loop, with its two \<^verbatim>\<open>continue\<close>s and its \<^verbatim>\<open>return false\<close>. In
  \<^verbatim>\<open>m_w <= x\<close> and \<^verbatim>\<open>m_h <= y\<close> the \<^verbatim>\<open>int\<close> is converted to \<^verbatim>\<open>size_t\<close>; both are
  non-negative where the comparison is reached, so the conversion keeps their value.
\<close>

fun isPuttable_cells :: "BlockMap \<Rightarrow> Block \<Rightarrow> (int \<times> int) list \<Rightarrow> fault + bool" where
  "isPuttable_cells bm b [] = Inr True"
| "isPuttable_cells bm b ((x, y) # cs) =
     (case exist b x y of
        None \<Rightarrow> Inl OutOfRange
      | Some False \<Rightarrow> isPuttable_cells bm b cs
      | Some True \<Rightarrow>
          if y < 0 then isPuttable_cells bm b cs
          else if x < 0 \<or> int (m_w bm) \<le> x \<or> int (m_h bm) \<le> y then Inr False
          else (case exist_BlockMap bm x y of
                  Inl e \<Rightarrow> Inl e
                | Inr True \<Rightarrow> Inr False
                | Inr False \<Rightarrow> isPuttable_cells bm b cs))"

definition isPuttable :: "BlockMap \<Rightarrow> Block \<Rightarrow> fault + bool" where
  "isPuttable bm b =
     (case getRange b of (sx, sy, ex, ey) \<Rightarrow> isPuttable_cells bm b (range_cells sx sy ex ey))"

text \<open>
  The points at which the double loop of \<^verbatim>\<open>isPuttable\<close> calls \<^verbatim>\<open>block.exist\<close>, in the order
  of the calls, when no \<^verbatim>\<open>return false\<close> cuts the loop short.
\<close>

definition isPuttable_visits :: "Block \<Rightarrow> (int \<times> int) list" where
  "isPuttable_visits b = (case getRange b of (sx, sy, ex, ey) \<Rightarrow> range_cells sx sy ex ey)"

subsection \<open>putBlock\<close>

text \<open>
  The loop variables of \<^verbatim>\<open>putBlock\<close> are \<^verbatim>\<open>size_t\<close>; they are converted back to \<^verbatim>\<open>int\<close>
  for \<^verbatim>\<open>block.exist(x, y)\<close> and for \<^verbatim>\<open>get(x, y)\<close>.
\<close>

fun putBlock_cells :: "Block \<Rightarrow> Color \<Rightarrow> (nat \<times> nat) list \<Rightarrow> BlockMap \<Rightarrow> fault + BlockMap" where
  "putBlock_cells b col [] bm = Inr bm"
| "putBlock_cells b col ((x, y) # cs) bm =
     (case exist b (int_of_size_t x) (int_of_size_t y) of
        None \<Rightarrow> Inl OutOfRange
      | Some False \<Rightarrow> putBlock_cells b col cs bm
      | Some True \<Rightarrow>
          (case set_at bm (int_of_size_t x) (int_of_size_t y) col of
             Inl e \<Rightarrow> Inl e
           | Inr bm' \<Rightarrow> putBlock_cells b col cs bm'))"

text \<open>
  The bounds \<^verbatim>\<open>ex\<close> and \<^verbatim>\<open>ey\<close> are \<^verbatim>\<open>int\<close>s compared with \<^verbatim>\<open>size_t\<close> counters, hence
  converted; a negative bound becomes a huge one. A bound equal to the largest \<^verbatim>\<open>size_t\<close>
  makes \<^verbatim>\<open>y <= ey\<close> (or \<^verbatim>\<open>x <= ex\<close>) true for ever: the call then does not return.
\<close>

definition putBlock :: "BlockMap \<Rightarrow> Block \<Rightarrow> fault + BlockMap" where
  "putBlock bm b =
     (case getRange b of (sx, sy, ex, ey) \<Rightarrow>
        let sx = max 0 sx;
            sy = max 0 sy;
            ex = min (int_of_size_t (m_w bm)) ex;
            ey = min (int_of_size_t (m_h bm)) ey;
            col = getColor b;
            x0 = size_t_of_int sx; x1 = size_t_of_int ex;
            y0 = size_t_of_int sy; y1 = size_t_of_int ey
        in (case putBlock_cells b col
                   (concat (map (\<lambda>y. map (\<lambda>x. (x, y)) [x0..<Suc x1]) [y0..<Suc y1])) bm of
              Inl e \<Rightarrow> Inl e
            | Inr bm' \<Rightarrow>
                if int y1 = 2 ^ 64 - 1 \<or> (int x1 = 2 ^ 64 - 1 \<and> y0 \<le> y1) then Inl NoReturn
                else Inr bm'))"

text \<open>
  The clamped bounds \<^verbatim>\<open>sx\<close>, \<^verbatim>\<open>sy\<close>, \<^verbatim>\<open>ex\<close>, \<^verbatim>\<open>ey\<close> of \<^verbatim>\<open>putBlock\<close>, and the values that
  its loop counters \<^verbatim>\<open>x\<close> and \<^verbatim>\<open>y\<close> take, in the order of the visit: \<^verbatim>\<open>putBlock\<close> calls
  \<^verbatim>\<open>block.exist\<close> at each of them, converted to \<^verbatim>\<open>int\<close>.
\<close>

definition putBlock_bounds :: "BlockMap \<Rightarrow> Block \<Rightarrow> int \<times> int \<times> int \<times> int" where
  "putBlock_bounds bm b =
     (case getRange b of (sx, sy, ex, ey) \<Rightarrow>
        (max 0 sx, max 0 sy, min (int_of_size_t (m_w bm)) ex, min (int_of_size_t (m_h bm)) ey))"

definition putBlock_visits :: "BlockMap \<Rightarrow> Block \<Rightarrow> (nat \<times> nat) list" where
  "putBlock_visits bm b =
     (case putBlock_bounds bm b of (sx, sy, ex, ey) \<Rightarrow>
        concat (map (\<lambda>y. map (\<lambda>x. (x, y)) [size_t_of_int sx..<Suc (size_t_of_int ex)])
                    [size_t_of_int sy..<Suc (size_t_of_int ey)]))"

subsection \<open>eraseFilledLines\<close>

text \<open>The loop that decides \<^verbatim>\<open>is_filled\<close> for line \<open>y\<close>, over the columns still to visit.\<close>

fun line_filled :: "BlockMap \<Rightarrow> int \<Rightarrow> nat list \<Rightarrow> fault + bool" where
  "line_filled bm y [] = Inr True"
| "line_filled bm y (x # xs) =
     (case get bm (int_of_size_t x) y of
        Inl e \<Rightarrow> Inl e
      | Inr c \<Rightarrow> if c = BLACK then Inr False else line_filled bm y xs)"

text \<open>\<^verbatim>\<open>get(x, yy) = get(x, yy - 1)\<close> for the columns still to visit.\<close>

fun copy_line :: "nat \<Rightarrow> nat list \<Rightarrow> BlockMap \<Rightarrow> fault + BlockMap" where
  "copy_line yy [] bm = Inr bm"
| "copy_line yy (x # xs) bm =
     (case get bm (int_of_size_t x) (int_of_size_t (yy - 1)) of
        Inl e \<Rightarrow> Inl e
      | Inr c \<Rightarrow>
          (case set_at bm (int_of_size_t x) (int_of_size_t yy) c of
             Inl e \<Rightarrow> Inl e
           | Inr bm' \<Rightarrow> copy_line yy xs bm'))"

text \<open>The shift \<^verbatim>\<open>for (size_t yy = y; 1 <= yy; yy--)\<close>, over the lines still to visit.\<close>

fun shift_lines :: "nat list \<Rightarrow> BlockMap \<Rightarrow> fault + BlockMap" where
  "shift_lines [] bm = Inr bm"
| "shift_lines (yy # yys) bm =
     (case copy_line yy [0..<m_w bm] bm of
        Inl e \<Rightarrow> Inl e
      | Inr bm' \<Rightarrow> shift_lines yys bm')"

text \<open>\<^verbatim>\<open>get(x, 0) = Color::BLACK\<close> for the columns still to visit.\<close>

fun clear_line :: "nat list \<Rightarrow> BlockMap \<Rightarrow> fault + BlockMap" where
  "clear_line [] bm = Inr bm"
| "clear_line (x # xs) bm =
     (case set_at bm (int_of_size_t x) 0 BLACK of
        Inl e \<Rightarrow> Inl e
      | Inr bm' \<Rightarrow> clear_line xs bm')"

text \<open>The branch \<^verbatim>\<open>if (is_filled)\<close> without the counter: shift, then blank line 0.\<close>

definition erase_line :: "int \<Rightarrow> BlockMap \<Rightarrow> fault + BlockMap" where
  "erase_line y bm =
     (case shift_lines (rev [1..<Suc (size_t_of_int y)]) bm of
        Inl e \<Rightarrow> Inl e
      | Inr bm' \<Rightarrow> clear_line [0..<m_w bm'] bm')"

text \<open>
  The outer loop \<^verbatim>\<open>for (int y = m_h - 1; 0 <= y; y--)\<close> over the lines still to visit,
  threading the map and \<^verbatim>\<open>n_erased_lines\<close>. After a line is erased the loop goes on with
  the next \<open>y\<close> of the list, as the \<^verbatim>\<open>y--\<close> of the source does.
\<close>

fun erase_loop :: "int list \<Rightarrow> BlockMap \<times> int \<Rightarrow> fault + BlockMap \<times> int" where
  "erase_loop [] (bm, n) = Inr (bm, n)"
| "erase_loop (y # ys) (bm, n) =
     (case line_filled bm y [0..<m_w bm] of
        Inl e \<Rightarrow> Inl e
      | Inr False \<Rightarrow> erase_loop ys (bm, n)
      | Inr True \<Rightarrow>
          (case erase_line y bm of
             Inl e \<Rightarrow> Inl e
           | Inr bm' \<Rightarrow> erase_loop ys (bm', n + 1)))"

text \<open>
  \<^verbatim>\<open>m_h - 1\<close> is computed in \<^verbatim>\<open>size_t\<close> and converted to \<^verbatim>\<open>int\<close>. The result is the
  updated map together with the returned count.
\<close>

definition eraseFilledLines :: "BlockMap \<Rightarrow> fault + BlockMap \<times> int" where
  "eraseFilledLines bm =
     erase_loop (rev [0..int_of_size_t (size_t_of_int (int (m_h bm) - 1))]) (bm, 0)"

text \<open>
  A map as the constructor builds it and every method keeps it: the vector has
  \<^verbatim>\<open>m_w * m_h\<close> cells. Both dimensions fit an \<^verbatim>\<open>int\<close>, as the methods convert between
  \<^verbatim>\<open>size_t\<close> and \<^verbatim>\<open>int\<close> freely.
\<close>

definition wf_BlockMap :: "BlockMap \<Rightarrow> bool" where
  "wf_BlockMap bm \<longleftrightarrow>
     length (m_blocks bm) = m_w bm * m_h bm \<and> m_w bm < 2 ^ 31 \<and> m_h bm < 2 ^ 31"

text \<open>
  The row-major view of a well-formed map: line \<open>y\<close> (its cells from left to right), the
  cell in column \<open>x\<close> of line \<open>y\<close>, and whether line \<open>y\<close> has no \<open>BLACK\<close> cell.
\<close>

definition line :: "BlockMap \<Rightarrow> nat \<Rightarrow> Color list" where
  "line bm y = take (m_w bm) (drop (y * m_w bm) (m_blocks bm))"

definition cell :: "BlockMap \<Rightarrow> nat \<Rightarrow> nat \<Rightarrow> Color" where
  "cell bm x y = m_blocks bm ! (y * m_w bm + x)"

definition filled :: "BlockMap \<Rightarrow> nat \<Rightarrow> bool" where
  "filled bm y \<longleftrightarrow> BLACK \<notin> set (line bm y)"

section \<open>TryBlockAction\<close>

text \<open>
  The member-function pointers that the program passes as \<^verbatim>\<open>action\<close>, with their arguments:
  \<^verbatim>\<open>&Block::rotate\<close> and \<^verbatim>\<open>&Block::move, dx, dy\<close>.
\<close>

datatype Action = Rotate | Move int int

fun act :: "Action \<Rightarrow> Block \<Rightarrow> Block" where
  "act Rotate b = rotate_Block b"
| "act (Move dx dy) b = move dx dy b"

text \<open>
  \<^verbatim>\<open>block = *block_tmp\<close> is the assignment of the base class \<^verbatim>\<open>Block\<close>: it copies \<^verbatim>\<open>m_x\<close>,
  \<^verbatim>\<open>m_y\<close> and \<^verbatim>\<open>m_rot\<close> and leaves the dynamic type of \<^verbatim>\<open>block\<close> as it is.
\<close>

definition assign_Block :: "Block \<Rightarrow> Block \<Rightarrow> Block" where
  "assign_Block block tmp = block\<lparr>m_x := m_x tmp, m_y := m_y tmp, m_rot := m_rot tmp\<rparr>"

text \<open>
  The result is the returned flag, the block behind the reference \<^verbatim>\<open>block\<close> after the
  call, and the map behind the \<^verbatim>\<open>const\<close> reference \<^verbatim>\<open>block_map\<close> after the call.
\<close>

definition TryBlockAction :: "Block \<Rightarrow> BlockMap \<Rightarrow> Action \<Rightarrow> fault + bool \<times> Block \<times> BlockMap" where
  "TryBlockAction block block_map action =
     (let block_tmp = act action block
      in case isPuttable block_map block_tmp of
           Inl e \<Rightarrow> Inl e
         | Inr True \<Rightarrow> Inr (True, assign_Block block block_tmp, block_map)
         | Inr False \<Rightarrow> Inr (False, block, block_map))"

section \<open>RandomBlockGenerator\<close>

text \<open>
  The generator keeps the spawn position; its Mersenne twister is outside the model, and each
  call takes the 32-bit value that \<^verbatim>\<open>m_mt()\<close> yields. The fields are \<^verbatim>\<open>m_x\<close> and \<^verbatim>\<open>m_y\<close> in
  the source, names that the record of \<open>Block\<close> already uses here.
\<close>

record RandomBlockGenerator =
  gen_x :: int
  gen_y :: int

text \<open>\<^verbatim>\<open>const int idx = m_mt() % 7\<close>.\<close>

definition shape_idx :: "32 word \<Rightarrow> int" where
  "shape_idx r = int (unat r mod 7)"

text \<open>The chain of \<^verbatim>\<open>if (idx == k)\<close>, ending in \<^verbatim>\<open>assert(false)\<close>.\<close>

definition Shape_of_idx :: "int \<Rightarrow> fault + Shape" where
  "Shape_of_idx idx =
     (if idx = 0 then Inr BlockShape0
      else if idx = 1 then Inr BlockShape1
      else if idx = 2 then Inr BlockShape2
      else if idx = 3 then Inr BlockShape3
      else if idx = 4 then Inr BlockShape4
      else if idx = 5 then Inr BlockShape5
      else if idx = 6 then Inr BlockShape6
      else Inl AssertFailed)"

definition generate :: "RandomBlockGenerator \<Rightarrow> 32 word \<Rightarrow> fault + Block" where
  "generate g r =
     (case Shape_of_idx (shape_idx r) of
        Inl e \<Rightarrow> Inl e
      | Inr s \<Rightarrow> Inr \<lparr>shape = s, m_x = gen_x g, m_y = gen_y g, m_rot = ROT0\<rparr>)"

text \<open>How many of the \<open>2 ^ 32\<close> generator outputs are reduced to the index \<open>k\<close>.\<close>

definition idx_preimages :: "int \<Rightarrow> nat" where
  "idx_preimages k = card {r :: 32 word. shape_idx r = k}"

section \<open>TetrisApp\<close>

text \<open>
  The members of \<^verbatim>\<open>TetrisApp\<close> that the game logic uses, and the locals of \<^verbatim>\<open>run\<close>. The
  terminal and the two clocks are outside the model: one pass through the body of
  \<^verbatim>\<open>while (true)\<close> takes what they deliver in that pass, namely the next output of the
  twister, the answer of \<^verbatim>\<open>m_event_clock.shouldHappen()\<close>, and the key that \<^verbatim>\<open>getKey\<close>
  delivered, if any.
\<close>

record TetrisApp =
  m_block_map :: BlockMap
  m_rand_block_gen :: RandomBlockGenerator
  n_erased_lines :: int
  next_block :: bool
  block :: Block

datatype exit = GameOver | Quit

datatype outcome = Running TetrisApp | Stopped exit TetrisApp

text \<open>\<^verbatim>\<open>if (next_block) { ... }\<close>: the new block, and the test for game over.\<close>

definition spawn_step :: "32 word \<Rightarrow> TetrisApp \<Rightarrow> fault + outcome" where
  "spawn_step rnd s =
     (if next_block s then
        (case generate (m_rand_block_gen s) rnd of
           Inl e \<Rightarrow> Inl e
         | Inr b \<Rightarrow>
             (let s' = s\<lparr>next_block := False, block := b\<rparr>
              in case isPuttable (m_block_map s') b of
                   Inl e \<Rightarrow> Inl e
                 | Inr False \<Rightarrow> Inr (Stopped GameOver s')
                 | Inr True \<Rightarrow> Inr (Running s')))
      else Inr (Running s))"

text \<open>\<^verbatim>\<open>if (m_event_clock.shouldHappen()) { ... }\<close>: go down, then check filled lines.\<close>

definition gravity_step :: "bool \<Rightarrow> TetrisApp \<Rightarrow> fault + TetrisApp" where
  "gravity_step tick s =
     (if tick then
        (case TryBlockAction (block s) (m_block_map s) (Move 0 1) of
           Inl e \<Rightarrow> Inl e
         | Inr (ok, b, bm) \<Rightarrow>
             (case eraseFilledLines bm of
                Inl e \<Rightarrow> Inl e
              | Inr (bm', k) \<Rightarrow>
                  Inr (s\<lparr>block := b, next_block := \<not> ok, m_block_map := bm',
                         n_erased_lines := n_erased_lines s + k\<rparr>)))
      else Inr s)"

text \<open>
  The drawing: the block is put into a copy of the map, the copy is printed, and the copy
  replaces the map when \<^verbatim>\<open>next_block\<close> is set.
\<close>

definition draw_step :: "TetrisApp \<Rightarrow> fault + TetrisApp" where
  "draw_step s =
     (case putBlock (m_block_map s) (block s) of
        Inl e \<Rightarrow> Inl e
      | Inr block_map_tmp \<Rightarrow>
          Inr (if next_block s then s\<lparr>m_block_map := block_map_tmp\<rparr> else s))"

definition try_key :: "Action \<Rightarrow> TetrisApp \<Rightarrow> fault + TetrisApp" where
  "try_key a s =
     (case TryBlockAction (block s) (m_block_map s) a of
        Inl e \<Rightarrow> Inl e
      | Inr (ok, b, bm) \<Rightarrow> Inr (s\<lparr>block := b, m_block_map := bm\<rparr>))"

text \<open>The five \<^verbatim>\<open>if (key == ...)\<close> in the order of the source; \<^verbatim>\<open>'q'\<close> leaves the loop.\<close>

definition key_step :: "char option \<Rightarrow> TetrisApp \<Rightarrow> fault + outcome" where
  "key_step key s =
     (case key of
        None \<Rightarrow> Inr (Running s)
      | Some k \<Rightarrow>
          (case (if k = CHR '' '' \<or> k = CHR ''r'' then try_key Rotate s else Inr s) of
             Inl e \<Rightarrow> Inl e
           | Inr s1 \<Rightarrow>
          (case (if k = CHR ''h'' then try_key (Move (- 1) 0) s1 else Inr s1) of
             Inl e \<Rightarrow> Inl e
           | Inr s2 \<Rightarrow>
          (case (if k = CHR ''l'' then try_key (Move 1 0) s2 else Inr s2) of
             Inl e \<Rightarrow> Inl e
           | Inr s3 \<Rightarrow>
          (case (if k = CHR ''j'' then try_key (Move 0 1) s3 else Inr s3) of
             Inl e \<Rightarrow> Inl e
           | Inr s4 \<Rightarrow>
               if k = CHR ''q'' then Inr (Stopped Quit s4) else Inr (Running s4))))))"

text \<open>One pass through the body of \<^verbatim>\<open>while (true)\<close>.\<close>

definition run_iter :: "32 word \<Rightarrow> bool \<Rightarrow> char option \<Rightarrow> TetrisApp \<Rightarrow> fault + outcome" where
  "run_iter rnd tick key s =
     (case spawn_step rnd s of
        Inl e \<Rightarrow> Inl e
      | Inr (Stopped x s1) \<Rightarrow> Inr (Stopped x s1)
      | Inr (Running s1) \<Rightarrow>
          (case gravity_step tick s1 of
             Inl e \<Rightarrow> Inl e
           | Inr s2 \<Rightarrow>
               (case draw_step s2 of
                  Inl e \<Rightarrow> Inl e
                | Inr s3 \<Rightarrow> key_step key s3)))"

section \<open>Properties of the blocks\<close>

lemmas geom_defs = getRange_def mask_idx_def exist_def SHAPE_at_def
  W_L_def W_R_def H_L_def H_R_def

text \<open>An integer interval as the image of a counted one, to enumerate it from a symbolic start.\<close>

lemma upto_as_map: "[i..j] = map (\<lambda>k. i + int k) [0..<nat (j - i + 1)]"
proof (induction "nat (j - i + 1)" arbitrary: i)
  case 0
  then show ?case by simp
next
  case (Suc n)
  then have le: "i \<le> j" and n: "n = nat (j - (i + 1) + 1)" by linarith+
  have "[i..j] = i # [i + 1..j]" using le by (simp add: upto_rec1)
  also have "[i + 1..j] = map (\<lambda>k. i + 1 + int k) [0..<n]"
    using Suc.hyps(1) [OF n] n by simp
  also have "i # map (\<lambda>k. i + 1 + int k) [0..<n] = map (\<lambda>k. i + int k) [0..<Suc n]"
    by (simp add: upt_conv_Cons map_Suc_upt [symmetric] del: upt_Suc)
  finally show ?case using Suc.hyps(2) by simp
qed

lemma rotate_Block_four: "rotate_Block (rotate_Block (rotate_Block (rotate_Block b))) = b"
  by (cases "m_rot b") (simp_all add: rotate_Block_def Rot_of_int_def)



lemma exist_in_range:
  assumes "exist b x y = Some v"
  shows "in_range b x y"
  using assms
  by (cases "shape b"; cases "m_rot b") (auto simp: in_range_def geom_defs split: if_splits)

lemma in_range_exist: "in_range b x y \<Longrightarrow> \<exists>v. exist b x y = Some v"
  by (cases "shape b"; cases "m_rot b") (auto simp: in_range_def geom_defs)

lemma edges_occupied_iff: "edges_occupied b \<longleftrightarrow> shape b = BlockShape3"
  by (cases "shape b"; cases "m_rot b")
     (simp_all add: edges_occupied_def occupied_in_row_def occupied_in_col_def geom_defs
        upto_as_map upt_rec [of _ "numeral _"] upt_rec [of _ "Suc _"])

text \<open>
  Claim C8. Four calls of \<^verbatim>\<open>rotate\<close> in succession give a block with the rotation state of
  the original, and \<^verbatim>\<open>exist\<close> answers the same for the two at every cell \<open>(x, y)\<close>, for
  every shape, anchor and starting rotation state.
\<close>

theorem rotate_four_times_identity:
  "m_rot (rotate_Block (rotate_Block (rotate_Block (rotate_Block b)))) = m_rot b \<and>
   exist (rotate_Block (rotate_Block (rotate_Block (rotate_Block b)))) x y = exist b x y"
  by (simp add: rotate_Block_four)

text \<open>
  Claim C5, as stated, fails: the rectangle of \<^verbatim>\<open>getRange\<close> is the extent of the whole mask,
  and the mask of \<open>BlockShape0\<close> has an empty top row. At the spawn position of the 11 by 20
  game the rectangle is \<open>[3, 6] \<times> [-2, 1]\<close> and its row \<open>sy = -2\<close> has no occupied cell.
\<close>

theorem getRange_not_tight_counterexample:
  "getRange \<lparr>shape = BlockShape0, m_x = 5, m_y = 0, m_rot = ROT0\<rparr> = (3, - 2, 6, 1) \<and>
   \<not> occupied_in_row \<lparr>shape = BlockShape0, m_x = 5, m_y = 0, m_rot = ROT0\<rparr> (- 2)"
  by (simp add: occupied_in_row_def geom_defs upto.simps)

text \<open>
  Claim C5, amended. For every shape, anchor and rotation state, every cell for which
  \<^verbatim>\<open>exist\<close> is true lies inside the inclusive rectangle of \<^verbatim>\<open>getRange\<close>; each of the four
  edges of the rectangle holds an occupied cell exactly when the shape is \<open>BlockShape3\<close>
  (the 2 by 2 square), and for the six other shapes some edge holds none.
\<close>

theorem getRange_contains_occupied_cells:
  "(exist b x y = Some True \<longrightarrow> in_range b x y) \<and>
   (edges_occupied b \<longleftrightarrow> shape b = BlockShape3)"
  using exist_in_range [of b x y True] edges_occupied_iff [of b] by blast

theorem getRange_contains_occupied_cells_witness:
  "exist \<lparr>shape = BlockShape3, m_x = 5, m_y = 0, m_rot = ROT270\<rparr> 4 (- 1) = Some True \<and>
   in_range \<lparr>shape = BlockShape3, m_x = 5, m_y = 0, m_rot = ROT270\<rparr> 4 (- 1) \<and>
   edges_occupied \<lparr>shape = BlockShape3, m_x = 5, m_y = 0, m_rot = ROT270\<rparr>"
  using getRange_contains_occupied_cells
    [of "\<lparr>shape = BlockShape3, m_x = 5, m_y = 0, m_rot = ROT270\<rparr>" 4 "- 1"]
  by (simp add: geom_defs)

section \<open>The shape index of the generator\<close>

lemma residue_class_image:
  assumes "k < 7"
  shows "{n::nat. n < 4294967296 \<and> n mod 7 = k} =
         (\<lambda>i. 7 * i + k) ` {..<(if k < 4 then 613566757 else 613566756)}"
proof (intro set_eqI iffI)
  fix n assume "n \<in> {n::nat. n < 4294967296 \<and> n mod 7 = k}"
  then have n: "n < 4294967296" "n mod 7 = k" by auto
  have "n = 7 * (n div 7) + n mod 7" by simp
  then obtain i where eq: "n = 7 * i + k" using n(2) by metis
  moreover have "i < (if k < 4 then 613566757 else 613566756)"
    using n(1) eq by (cases "k < 4") simp_all
  ultimately show "n \<in> (\<lambda>i. 7 * i + k) ` {..<(if k < 4 then 613566757 else 613566756)}"
    by blast
next
  fix n assume "n \<in> (\<lambda>i. 7 * i + k) ` {..<(if k < 4 then 613566757 else 613566756)}"
  then obtain i where "n = 7 * i + k" "i < (if k < 4 then 613566757 else 613566756)" by auto
  then show "n \<in> {n::nat. n < 4294967296 \<and> n mod 7 = k}"
    using assms by (cases "k < 4") auto
qed

lemma card_residue_class:
  assumes "k < 7"
  shows "card {n::nat. n < 4294967296 \<and> n mod 7 = k} = (if k < 4 then 613566757 else 613566756)"
proof -
  have "inj_on (\<lambda>i::nat. 7 * i + k) A" for A by (simp add: inj_on_def)
  then show ?thesis
    unfolding residue_class_image [OF assms] by (simp add: card_image)
qed

lemma unat_image_32:
  "unat ` {r :: 32 word. P (unat r)} = {n. n < 4294967296 \<and> P n}"
proof (intro set_eqI iffI)
  fix n assume "n \<in> unat ` {r :: 32 word. P (unat r)}"
  then obtain r :: "32 word" where "n = unat r" "P (unat r)" by auto
  moreover have "unat r < 2 ^ 32" using unsigned_less [of r, where 'a = nat] by simp
  ultimately show "n \<in> {n. n < 4294967296 \<and> P n}" by simp
next
  fix n assume "n \<in> {n. n < 4294967296 \<and> P n}"
  then have n: "n < 4294967296" "P n" by auto
  then have "unat (of_nat n :: 32 word) = n" by (intro of_nat_inverse) simp_all
  with n show "n \<in> unat ` {r :: 32 word. P (unat r)}"
    by (metis (mono_tags, lifting) image_eqI mem_Collect_eq)
qed

text \<open>The number of generator outputs that are reduced to a given index.\<close>

lemma idx_preimages_eq:
  assumes "k < 7"
  shows "idx_preimages (int k) = (if k < 4 then 613566757 else 613566756)"
proof -
  have "card {r :: 32 word. unat r mod 7 = k} = card (unat ` {r :: 32 word. unat r mod 7 = k})"
    by (rule card_image [symmetric]) (simp add: inj_on_def word_unat_eq_iff)
  also have "\<dots> = card {n::nat. n < 4294967296 \<and> n mod 7 = k}"
    by (simp only: unat_image_32 [where P = "\<lambda>n. n mod 7 = k"])
  finally show ?thesis
    by (simp add: idx_preimages_def shape_idx_def card_residue_class [OF assms])
qed

lemma shape_idx_range: "0 \<le> shape_idx r \<and> shape_idx r < 7"
  by (simp add: shape_idx_def)


text \<open>
  Claim C9, as stated, fails: the seven residues do not have the same number of preimages
  among the \<open>2 ^ 32\<close> outputs of the generator, since \<open>2 ^ 32 = 7 * 613566756 + 4\<close>.
\<close>

theorem idx_preimages_not_equal_counterexample:
  "idx_preimages 0 = 613566757 \<and> idx_preimages 6 = 613566756 \<and>
   idx_preimages 0 \<noteq> idx_preimages 6"
  using idx_preimages_eq [of 0] idx_preimages_eq [of 6] by simp

text \<open>
  Claim C9, amended. The index \<^verbatim>\<open>m_mt() % 7\<close> always lies in \<open>{0, ..., 6}\<close>; of the \<open>2 ^ 32\<close>
  outputs of the generator, 613566757 are reduced to each of the indices 0, 1, 2, 3 and
  613566756 to each of 4, 5, 6. With uniform outputs the seven shapes are therefore equally
  likely only up to one preimage in \<open>2 ^ 32\<close>.
\<close>

theorem shape_idx_preimages:
  "0 \<le> shape_idx r \<and> shape_idx r < 7 \<and>
   (k < 7 \<longrightarrow> idx_preimages (int k) = (if k < 4 then 613566757 else 613566756))"
  using idx_preimages_eq [of k] shape_idx_range [of r] by simp

theorem shape_idx_preimages_witness:
  "(5 :: nat) < 7 \<and> shape_idx 12 = 5 \<and> idx_preimages 5 = 613566756"
  using shape_idx_preimages [of 12 5] by (simp add: shape_idx_def)

section \<open>Placing a block: isPuttable and TryBlockAction\<close>

lemma int_of_size_t_small: "n < 2 ^ 31 \<Longrightarrow> int_of_size_t n = int n"
  by (simp add: int_of_size_t_def)

lemma cell_index_less: "x < w \<Longrightarrow> y < h \<Longrightarrow> y * w + x < w * (h::nat)"
proof -
  assume a: "x < w" "y < h"
  then have "y * w + x < y * w + w" by simp
  also have "\<dots> = (Suc y) * w" by simp
  also have "\<dots> \<le> h * w" using a(2) by (intro mult_le_mono1) simp
  finally show ?thesis by (simp add: mult.commute)
qed

lemma get_idx_in_field:
  assumes "wf_BlockMap bm" "0 \<le> x" "x < int (m_w bm)" "0 \<le> y" "y < int (m_h bm)"
  shows "get_idx bm x y = nat y * m_w bm + nat x" and "get_idx bm x y < length (m_blocks bm)"
proof -
  have w: "m_w bm < 2 ^ 31" and h: "m_h bm < 2 ^ 31" and len: "length (m_blocks bm) = m_w bm * m_h bm"
    using assms(1) by (simp_all add: wf_BlockMap_def)
  have x: "size_t_of_int x = nat x" and y: "size_t_of_int y = nat y"
    using assms w h by (simp_all add: size_t_of_int_def)
  have lt: "nat y * m_w bm + nat x < m_w bm * m_h bm"
    using assms by (intro cell_index_less) simp_all
  have "m_w bm * m_h bm < 2 ^ 31 * 2 ^ 31"
    using w h by (metis (no_types) mult_strict_mono' zero_le)
  then have "nat y * m_w bm + nat x < 2 ^ 64" using lt by simp
  then have "size_t_of_int (int (nat y * m_w bm + nat x)) = nat y * m_w bm + nat x"
    unfolding size_t_of_int_def by (simp only: nat_int of_nat_less_numeral_power_cancel_iff
        mod_pos_pos_trivial of_nat_0_le_iff)
  then show "get_idx bm x y = nat y * m_w bm + nat x"
    by (simp only: get_idx_def x y of_nat_add of_nat_mult)
  with lt len show "get_idx bm x y < length (m_blocks bm)" by simp
qed

lemma get_in_field:
  assumes "wf_BlockMap bm" "0 \<le> x" "x < int (m_w bm)" "0 \<le> y" "y < int (m_h bm)"
  shows "get bm x y = Inr (cell bm (nat x) (nat y))"
  using get_idx_in_field [OF assms] by (simp add: get_def cell_def)

lemma set_range_cells:
  "set (range_cells sx sy ex ey) = {(x, y). sx \<le> x \<and> x \<le> ex \<and> sy \<le> y \<and> y \<le> ey}"
  by (auto simp: range_cells_def)

lemma isPuttable_cells_eq:
  assumes "wf_BlockMap bm" and "\<forall>(x, y) \<in> set cs. in_range b x y"
  shows "isPuttable_cells bm b cs =
         Inr (\<forall>(x, y) \<in> set cs. exist b x y = Some True \<longrightarrow>
                y < 0 \<or> (0 \<le> x \<and> x < int (m_w bm) \<and> y < int (m_h bm) \<and>
                          cell bm (nat x) (nat y) = BLACK))"
  using assms(2)
proof (induction cs)
  case Nil
  then show ?case by simp
next
  case (Cons c cs)
  obtain x y where c: "c = (x, y)" by (cases c)
  from Cons.prems c obtain v where v: "exist b x y = Some v"
    using in_range_exist [of b x y] by auto
  have IH: "isPuttable_cells bm b cs =
         Inr (\<forall>(x, y) \<in> set cs. exist b x y = Some True \<longrightarrow>
                y < 0 \<or> (0 \<le> x \<and> x < int (m_w bm) \<and> y < int (m_h bm) \<and>
                          cell bm (nat x) (nat y) = BLACK))"
    using Cons by simp
  show ?case
  proof (cases "v \<and> 0 \<le> y \<and> 0 \<le> x \<and> x < int (m_w bm) \<and> y < int (m_h bm)")
    case True
    then have "get bm x y = Inr (cell bm (nat x) (nat y))"
      using get_in_field [OF assms(1)] by simp
    then show ?thesis using True v c IH by (auto simp: exist_BlockMap_def split: bool.splits)
  next
    case False
    then show ?thesis using v c IH by (cases v) (auto split: bool.splits)
  qed
qed

lemma isPuttable_eq:
  assumes "wf_BlockMap bm"
  shows "isPuttable bm b =
         Inr (\<forall>x y. in_range b x y \<and> exist b x y = Some True \<longrightarrow>
                y < 0 \<or> (0 \<le> x \<and> x < int (m_w bm) \<and> y < int (m_h bm) \<and>
                          cell bm (nat x) (nat y) = BLACK))"
proof -
  obtain sx sy ex ey where r: "getRange b = (sx, sy, ex, ey)" by (cases "getRange b")
  have "\<forall>(x, y) \<in> set (range_cells sx sy ex ey). in_range b x y"
    by (auto simp: set_range_cells in_range_def r)
  from isPuttable_cells_eq [OF assms this]
  show ?thesis
    by (auto simp: isPuttable_def r set_range_cells in_range_def)
qed

lemma assign_Block_act: "assign_Block b (act a b) = act a b"
  by (cases a) (simp_all add: assign_Block_def rotate_Block_def move_def setPos_def)

lemma TryBlockAction_eq:
  assumes "wf_BlockMap bm"
  shows "(isPuttable bm (act a b) = Inr False \<longrightarrow> TryBlockAction b bm a = Inr (False, b, bm)) \<and>
         (isPuttable bm (act a b) = Inr True \<longrightarrow> TryBlockAction b bm a = Inr (True, act a b, bm)) \<and>
         (isPuttable bm (act a b) = Inr False \<or> isPuttable bm (act a b) = Inr True)"
proof -
  obtain r where r: "isPuttable bm (act a b) = Inr r"
    using isPuttable_eq [OF assms] by blast
  show ?thesis
    by (cases r) (simp_all add: TryBlockAction_def r assign_Block_act del: act.simps)
qed

lemma wf_new_11_20: "wf_BlockMap (new_BlockMap 11 20)"
  by (simp add: wf_BlockMap_def new_BlockMap_def size_t_of_int_def)

lemma isPuttable_below_bottom:
  "isPuttable (new_BlockMap 11 20) \<lparr>shape = BlockShape3, m_x = 5, m_y = 20, m_rot = ROT0\<rparr>
     = Inr False"
  by code_simp

text \<open>
  Claim C3. On a well-formed map \<^verbatim>\<open>isPuttable\<close> returns, for every block, the truth value of:
  every cell \<open>(x, y)\<close> of the rectangle of \<^verbatim>\<open>getRange\<close> for which \<^verbatim>\<open>exist\<close> is true has
  \<open>y < 0\<close>, or has \<open>0 \<le> x < m_w\<close> and \<open>y < m_h\<close> and an empty (\<open>BLACK\<close>) cell of the map at
  \<open>(x, y)\<close>. So it returns true if and only if that holds, and false as soon as an occupied
  cell with \<open>y \<ge> 0\<close> is outside the columns, at or below the bottom, or on a coloured cell.
\<close>

theorem isPuttable_iff:
  assumes "wf_BlockMap bm"
  shows "isPuttable bm b =
         Inr (\<forall>x y. in_range b x y \<and> exist b x y = Some True \<longrightarrow>
                y < 0 \<or> (0 \<le> x \<and> x < int (m_w bm) \<and> y < int (m_h bm) \<and>
                          cell bm (nat x) (nat y) = BLACK))"
  by (rule isPuttable_eq [OF assms])

theorem isPuttable_iff_witness:
  "wf_BlockMap (new_BlockMap 11 20) \<and>
   isPuttable (new_BlockMap 11 20) \<lparr>shape = BlockShape3, m_x = 5, m_y = 20, m_rot = ROT0\<rparr>
     = Inr False"
  using isPuttable_iff [OF wf_new_11_20,
      of "\<lparr>shape = BlockShape3, m_x = 5, m_y = 20, m_rot = ROT0\<rparr>"]
    wf_new_11_20 isPuttable_below_bottom
  by simp

text \<open>
  Claim C7. For every block, every well-formed map and every action (rotate, or move by any
  \<open>(dx, dy)\<close>): \<^verbatim>\<open>isPuttable\<close> of the transformed clone answers false or true; if false,
  \<^verbatim>\<open>TryBlockAction\<close> returns false and the block is exactly as before; if true, it returns
  true and the block is the transformed one; in both cases the map is as before.
\<close>

theorem TryBlockAction_accepts_or_rejects:
  assumes "wf_BlockMap bm"
  shows "(isPuttable bm (act a b) = Inr False \<longrightarrow> TryBlockAction b bm a = Inr (False, b, bm)) \<and>
         (isPuttable bm (act a b) = Inr True \<longrightarrow> TryBlockAction b bm a = Inr (True, act a b, bm)) \<and>
         (isPuttable bm (act a b) = Inr False \<or> isPuttable bm (act a b) = Inr True)"
  by (rule TryBlockAction_eq [OF assms])

theorem TryBlockAction_accepts_or_rejects_witness:
  "wf_BlockMap (new_BlockMap 11 20) \<and>
   isPuttable (new_BlockMap 11 20)
     (act (Move 0 1) \<lparr>shape = BlockShape3, m_x = 5, m_y = 19, m_rot = ROT0\<rparr>) = Inr False \<and>
   TryBlockAction \<lparr>shape = BlockShape3, m_x = 5, m_y = 19, m_rot = ROT0\<rparr>
       (new_BlockMap 11 20) (Move 0 1)
     = Inr (False, \<lparr>shape = BlockShape3, m_x = 5, m_y = 19, m_rot = ROT0\<rparr>, new_BlockMap 11 20)"
  using TryBlockAction_accepts_or_rejects [OF wf_new_11_20,
      of "Move 0 1" "\<lparr>shape = BlockShape3, m_x = 5, m_y = 19, m_rot = ROT0\<rparr>"]
    wf_new_11_20 isPuttable_below_bottom
  by (simp add: move_def setPos_def)

section \<open>putBlock\<close>

text \<open>
  Claim C4 against the code. The upper bounds are clamped to \<^verbatim>\<open>m_w\<close> and \<^verbatim>\<open>m_h\<close>, and the
  loops run while \<^verbatim>\<open>x <= ex\<close> and \<^verbatim>\<open>y <= ey\<close>, so column \<^verbatim>\<open>m_w\<close> and line \<^verbatim>\<open>m_h\<close> are
  visited. On the empty 11 by 20 map, the square block anchored at \<open>(5, 20)\<close> makes
  \<^verbatim>\<open>putBlock\<close> assign to \<^verbatim>\<open>get(4, 20)\<close>, which is element 224 of a vector of 220; anchored
  at \<open>(11, 5)\<close> it assigns to \<^verbatim>\<open>get(11, 4)\<close> and \<^verbatim>\<open>get(11, 5)\<close>, which are the elements 55
  and 66, the cells \<open>(0, 5)\<close> and \<open>(0, 6)\<close> at the opposite edge of the map.
\<close>

theorem putBlock_writes_outside_field:
  "putBlock (new_BlockMap 11 20) \<lparr>shape = BlockShape3, m_x = 5, m_y = 20, m_rot = ROT0\<rparr>
     = Inl OutOfRange \<and>
   putBlock (new_BlockMap 11 20) \<lparr>shape = BlockShape3, m_x = 11, m_y = 5, m_rot = ROT0\<rparr>
     = Inr \<lparr>m_w = 11, m_h = 20,
            m_blocks = replicate 54 BLACK @ [WHITE, WHITE] @ replicate 9 BLACK @
                       [WHITE, WHITE] @ replicate 153 BLACK\<rparr>"
  by code_simp

section \<open>The mask reads of isPuttable and putBlock\<close>

text \<open>
  \<^verbatim>\<open>isPuttable\<close> and \<^verbatim>\<open>putBlock\<close> call \<^verbatim>\<open>block.exist\<close> at the points their loops visit. The
  two lemmas below tie the lists of these points to the two functions.
\<close>

lemma isPuttable_via_visits: "isPuttable bm b = isPuttable_cells bm b (isPuttable_visits b)"
  by (cases "getRange b") (simp add: isPuttable_def isPuttable_visits_def)

lemma putBlock_via_visits:
  "putBlock bm b =
     (case putBlock_bounds bm b of (sx, sy, ex, ey) \<Rightarrow>
        (case putBlock_cells b (getColor b) (putBlock_visits bm b) bm of
           Inl e \<Rightarrow> Inl e
         | Inr bm' \<Rightarrow>
             if int (size_t_of_int ey) = 2 ^ 64 - 1 \<or>
                (int (size_t_of_int ex) = 2 ^ 64 - 1 \<and> size_t_of_int sy \<le> size_t_of_int ey)
             then Inl NoReturn else Inr bm'))"
  by (cases "getRange b")
     (simp add: putBlock_def putBlock_bounds_def putBlock_visits_def Let_def del: upt_Suc)






lemma visits_first:
  assumes "x0 \<le> x1" "y0 \<le> y1"
  shows "\<exists>rest. concat (map (\<lambda>y. map (\<lambda>x. (x, y)) [x0..<Suc x1]) [y0..<Suc y1])
           = (x0, y0) # rest"
proof -
  have "[x0..<Suc x1] = x0 # [Suc x0..<Suc x1]" "[y0..<Suc y1] = y0 # [Suc y0..<Suc y1]"
    using assms by (simp_all add: upt_conv_Cons del: upt_Suc)
  then show ?thesis by (simp del: upt_Suc)
qed


lemma I_left_first_visit:
  "\<exists>rest. putBlock_visits bm \<lparr>shape = BlockShape0, m_x = - 2, m_y = 0, m_rot = ROT0\<rparr>
     = (0, 0) # rest" if "m_w bm = 11" "m_h bm = 20"
proof -
  have bnd: "putBlock_bounds bm \<lparr>shape = BlockShape0, m_x = - 2, m_y = 0, m_rot = ROT0\<rparr>
     = (0, 0, - 1, 1)"
    using that by (simp add: putBlock_bounds_def getRange_def W_L_def W_R_def H_L_def H_R_def
      int_of_size_t_def)
  have z: "size_t_of_int 0 = 0" by (simp add: size_t_of_int_def)
  have "\<exists>rest. concat (map (\<lambda>y. map (\<lambda>x. (x, y)) [0..<Suc (size_t_of_int (- 1))])
                            [0..<Suc (size_t_of_int 1)]) = (0, 0) # rest"
    by (rule visits_first) simp_all
  then show ?thesis unfolding putBlock_visits_def bnd prod.case z .
qed

lemma I_left_putBlock:
  assumes "m_w bm = 11" "m_h bm = 20"
  shows "putBlock bm \<lparr>shape = BlockShape0, m_x = - 2, m_y = 0, m_rot = ROT0\<rparr> = Inl OutOfRange"
proof -
  obtain rest where v: "putBlock_visits bm \<lparr>shape = BlockShape0, m_x = - 2, m_y = 0, m_rot = ROT0\<rparr>
     = (0, 0) # rest"
    using I_left_first_visit [OF assms] by blast
  have "exist \<lparr>shape = BlockShape0, m_x = - 2, m_y = 0, m_rot = ROT0\<rparr>
      (int_of_size_t 0) (int_of_size_t 0) = None"
    by (simp add: geom_defs int_of_size_t_def)
  then have "putBlock_cells \<lparr>shape = BlockShape0, m_x = - 2, m_y = 0, m_rot = ROT0\<rparr> col
      ((0, 0) # rest) bm = Inl OutOfRange" for col
    by simp
  then show ?thesis
    unfolding putBlock_via_visits v by (simp split: prod.splits)
qed


lemma new_11_20_dims: "m_w (new_BlockMap 11 20) = 11" "m_h (new_BlockMap 11 20) = 20"
  by (simp_all add: new_BlockMap_def)







section \<open>eraseFilledLines\<close>

text \<open>
  On a well-formed map every access of \<^verbatim>\<open>eraseFilledLines\<close> is inside the vector. Each loop
  is characterised by the cells of the map it returns.
\<close>

lemma wf_dims:
  assumes "wf_BlockMap bm"
  shows "length (m_blocks bm) = m_w bm * m_h bm" "m_w bm < 2 ^ 31" "m_h bm < 2 ^ 31"
  using assms by (simp_all add: wf_BlockMap_def)

lemma cell_index_inj:
  assumes "x < w" "x' < w" "y * w + x = y' * w + (x'::nat)"
  shows "x = x' \<and> y = y'"
proof -
  have "y = (y * w + x) div w" using assms(1) by simp
  also have "\<dots> = (y' * w + x') div w" by (simp only: assms(3))
  also have "\<dots> = y'" using assms(2) by simp
  finally have "y = y'" .
  then show ?thesis using assms(3) by simp
qed

text \<open>Reads and writes with size_t arguments inside the field.\<close>

lemma get_nat:
  assumes "wf_BlockMap bm" "x < m_w bm" "y < m_h bm"
  shows "get bm (int_of_size_t x) (int_of_size_t y) = Inr (cell bm x y)"
proof -
  have "int_of_size_t x = int x" "int_of_size_t y = int y"
    using assms wf_dims [OF assms(1)] by (simp_all add: int_of_size_t_small)
  then show ?thesis using get_in_field [OF assms(1), of "int x" "int y"] assms by simp
qed

lemma set_at_nat:
  assumes "wf_BlockMap bm" "x < m_w bm" "y < m_h bm"
  shows "set_at bm (int_of_size_t x) (int_of_size_t y) c =
           Inr (bm\<lparr>m_blocks := (m_blocks bm)[y * m_w bm + x := c]\<rparr>)"
proof -
  have "int_of_size_t x = int x" "int_of_size_t y = int y"
    using assms wf_dims [OF assms(1)] by (simp_all add: int_of_size_t_small)
  then show ?thesis
    using get_idx_in_field [OF assms(1), of "int x" "int y"] assms by (simp add: set_at_def)
qed

lemma wf_update: "wf_BlockMap bm \<Longrightarrow> wf_BlockMap (bm\<lparr>m_blocks := (m_blocks bm)[i := c]\<rparr>)"
  by (simp add: wf_BlockMap_def)

lemma cell_update:
  assumes "wf_BlockMap bm" "x < m_w bm" "y < m_h bm" "x' < m_w bm" "y' < m_h bm"
  shows "cell (bm\<lparr>m_blocks := (m_blocks bm)[y * m_w bm + x := c]\<rparr>) x' y' =
         (if x' = x \<and> y' = y then c else cell bm x' y')"
proof -
  have "y * m_w bm + x < length (m_blocks bm)"
    using assms cell_index_less [of x "m_w bm" y "m_h bm"] wf_dims(1) [OF assms(1)] by simp
  moreover have "y' * m_w bm + x' = y * m_w bm + x \<longleftrightarrow> x' = x \<and> y' = y"
    using cell_index_inj [of x' "m_w bm" x y' y] assms by auto
  ultimately show ?thesis by (auto simp: cell_def nth_list_update)
qed

lemma line_cells:
  assumes "wf_BlockMap bm" "y < m_h bm"
  shows "line bm y = map (\<lambda>x. cell bm x y) [0..<m_w bm]"
proof (rule nth_equalityI)
  have "Suc y * m_w bm \<le> m_h bm * m_w bm" using assms(2) by (intro mult_le_mono1) simp
  then have le: "y * m_w bm + m_w bm \<le> length (m_blocks bm)"
    using wf_dims(1) [OF assms(1)] by (simp add: mult.commute)
  then show len: "length (line bm y) = length (map (\<lambda>x. cell bm x y) [0..<m_w bm])"
    by (simp add: line_def)
  fix i assume "i < length (line bm y)"
  then have "i < m_w bm" using len by simp
  then show "line bm y ! i = map (\<lambda>x. cell bm x y) [0..<m_w bm] ! i"
    using le by (simp add: line_def cell_def)
qed

lemma filled_cells:
  assumes "wf_BlockMap bm" "y < m_h bm"
  shows "filled bm y \<longleftrightarrow> (\<forall>x < m_w bm. cell bm x y \<noteq> BLACK)"
proof -
  have len: "length (line bm y) = m_w bm" by (simp add: line_cells [OF assms])
  have nth: "line bm y ! x = cell bm x y" if "x < m_w bm" for x
    using that by (simp add: line_cells [OF assms])
  have "BLACK \<in> set (line bm y) \<longleftrightarrow> (\<exists>x < m_w bm. line bm y ! x = BLACK)"
    unfolding in_set_conv_nth len ..
  also have "\<dots> \<longleftrightarrow> (\<exists>x < m_w bm. cell bm x y = BLACK)"
    using nth by metis
  finally show ?thesis by (simp add: filled_def)
qed

lemma line_filled_eq:
  assumes "wf_BlockMap bm" "y < m_h bm" "\<forall>x \<in> set xs. x < m_w bm"
  shows "line_filled bm (int y) xs = Inr (\<forall>x \<in> set xs. cell bm x y \<noteq> BLACK)"
  using assms(3)
proof (induction xs)
  case Nil
  then show ?case by simp
next
  case (Cons x xs)
  have x: "x < m_w bm" using Cons.prems by simp
  have "int_of_size_t y = int y"
    using assms(2) wf_dims(3) [OF assms(1)] by (simp add: int_of_size_t_small)
  then have g: "get bm (int_of_size_t x) (int y) = Inr (cell bm x y)"
    using get_nat [OF assms(1) x assms(2)] by simp
  have IH: "line_filled bm (int y) xs = Inr (\<forall>x' \<in> set xs. cell bm x' y \<noteq> BLACK)"
    using Cons.IH Cons.prems by simp
  show ?case by (simp add: g IH)
qed

lemma line_filled_all:
  assumes "wf_BlockMap bm" "y < m_h bm"
  shows "line_filled bm (int y) [0..<m_w bm] = Inr (filled bm y)"
  using line_filled_eq [OF assms, of "[0..<m_w bm]"] filled_cells [OF assms] by auto

lemma copy_line_eq:
  assumes "0 < yy"
  shows "wf_BlockMap bm \<Longrightarrow> yy < m_h bm \<Longrightarrow> \<forall>x \<in> set xs. x < m_w bm \<Longrightarrow>
         \<exists>bm'. copy_line yy xs bm = Inr bm' \<and> wf_BlockMap bm' \<and>
           m_w bm' = m_w bm \<and> m_h bm' = m_h bm \<and>
           (\<forall>x y. x < m_w bm \<and> y < m_h bm \<longrightarrow>
              cell bm' x y = (if y = yy \<and> x \<in> set xs then cell bm x (yy - 1) else cell bm x y))"
proof (induction xs arbitrary: bm)
  case Nil
  then show ?case by simp
next
  case (Cons x xs)
  define bm1 where "bm1 = bm\<lparr>m_blocks := (m_blocks bm)[yy * m_w bm + x := cell bm x (yy - 1)]\<rparr>"
  note wf = Cons.prems(1)
  have x: "x < m_w bm" using Cons.prems(3) by simp
  have yy: "yy - 1 < m_h bm" using Cons.prems(2) by simp
  have dims: "m_w bm1 = m_w bm" "m_h bm1 = m_h bm" by (simp_all add: bm1_def)
  have wf1: "wf_BlockMap bm1" unfolding bm1_def by (rule wf_update [OF wf])
  have rd: "get bm (int_of_size_t x) (int_of_size_t (yy - 1)) = Inr (cell bm x (yy - 1))"
    by (rule get_nat [OF wf x yy])
  have wr: "set_at bm (int_of_size_t x) (int_of_size_t yy) (cell bm x (yy - 1)) = Inr bm1"
    unfolding bm1_def by (rule set_at_nat [OF wf x Cons.prems(2)])
  have c1: "cell bm1 x' y' = (if x' = x \<and> y' = yy then cell bm x (yy - 1) else cell bm x' y')"
    if "x' < m_w bm" "y' < m_h bm" for x' y'
    unfolding bm1_def by (rule cell_update [OF wf x Cons.prems(2) that])
  from Cons.IH [OF wf1] Cons.prems(2,3) dims
  obtain bm' where bm': "copy_line yy xs bm1 = Inr bm'" "wf_BlockMap bm'"
      "m_w bm' = m_w bm" "m_h bm' = m_h bm"
      "\<forall>x y. x < m_w bm \<and> y < m_h bm \<longrightarrow>
         cell bm' x y = (if y = yy \<and> x \<in> set xs then cell bm1 x (yy - 1) else cell bm1 x y)"
    by auto
  have "cell bm' x' y' = (if y' = yy \<and> x' \<in> set (x # xs) then cell bm x' (yy - 1) else cell bm x' y')"
    if "x' < m_w bm" "y' < m_h bm" for x' y'
    using bm'(5) that c1 [OF that] c1 [OF that(1) yy] assms by auto
  then show ?case using bm'(1-4) rd wr by simp
qed

lemma shift_lines_eq:
  "wf_BlockMap bm \<Longrightarrow> n < m_h bm \<Longrightarrow>
   \<exists>bm'. shift_lines (rev [1..<Suc n]) bm = Inr bm' \<and> wf_BlockMap bm' \<and>
     m_w bm' = m_w bm \<and> m_h bm' = m_h bm \<and>
     (\<forall>x y. x < m_w bm \<and> y < m_h bm \<longrightarrow>
        cell bm' x y = (if 0 < y \<and> y \<le> n then cell bm x (y - 1) else cell bm x y))"
proof (induction n arbitrary: bm)
  case 0
  then show ?case by simp
next
  case (Suc n)
  have "\<forall>x \<in> set [0..<m_w bm]. x < m_w bm" by simp
  from copy_line_eq [OF _ Suc.prems(1,2) this]
  obtain bm1 where bm1: "copy_line (Suc n) [0..<m_w bm] bm = Inr bm1" "wf_BlockMap bm1"
      "m_w bm1 = m_w bm" "m_h bm1 = m_h bm"
      "\<forall>x y. x < m_w bm \<and> y < m_h bm \<longrightarrow>
         cell bm1 x y = (if y = Suc n \<and> x \<in> set [0..<m_w bm] then cell bm x (Suc n - 1)
                         else cell bm x y)"
    by blast
  have "n < m_h bm1" using Suc.prems(2) bm1(4) by simp
  from Suc.IH [OF bm1(2) this]
  obtain bm' where bm': "shift_lines (rev [1..<Suc n]) bm1 = Inr bm'" "wf_BlockMap bm'"
      "m_w bm' = m_w bm1" "m_h bm' = m_h bm1"
      "\<forall>x y. x < m_w bm1 \<and> y < m_h bm1 \<longrightarrow>
         cell bm' x y = (if 0 < y \<and> y \<le> n then cell bm1 x (y - 1) else cell bm1 x y)"
    by blast
  have cells: "cell bm' x y = (if 0 < y \<and> y \<le> Suc n then cell bm x (y - 1) else cell bm x y)"
    if "x < m_w bm" "y < m_h bm" for x y
  proof -
    have a: "cell bm' x y = (if 0 < y \<and> y \<le> n then cell bm1 x (y - 1) else cell bm1 x y)"
      using bm'(5) bm1(3,4) that by simp
    have b: "cell bm1 x y' = (if y' = Suc n then cell bm x n else cell bm x y')"
      if "y' < m_h bm" for y'
      using bm1(5) \<open>x < m_w bm\<close> that by simp
    show ?thesis
    proof (cases "0 < y \<and> y \<le> n")
      case True
      then have "y - 1 < m_h bm" "y - 1 \<noteq> Suc n" using that(2) by arith+
      then show ?thesis using a b [of "y - 1"] True by simp
    next
      case False
      show ?thesis
      proof (cases "y = Suc n")
        case True
        then show ?thesis using a b [OF that(2)] by simp
      next
        case neq: False
        then have n2: "\<not> (0 < y \<and> y \<le> Suc n)" using False by arith
        have "cell bm' x y = cell bm x y" using a b [OF that(2)] False neq by simp
        then show ?thesis by (simp only: n2 if_False)
      qed
    qed
  qed
  have "shift_lines (rev [1..<Suc (Suc n)]) bm = Inr bm'"
    using bm1(1) bm'(1) by simp
  then show ?case using bm'(2,3,4) bm1(3,4) cells by simp
qed

lemma int_of_size_t_0: "int_of_size_t 0 = 0"
  by (simp add: int_of_size_t_def)

lemma clear_line_eq:
  "wf_BlockMap bm \<Longrightarrow> 0 < m_h bm \<Longrightarrow> \<forall>x \<in> set xs. x < m_w bm \<Longrightarrow>
   \<exists>bm'. clear_line xs bm = Inr bm' \<and> wf_BlockMap bm' \<and>
     m_w bm' = m_w bm \<and> m_h bm' = m_h bm \<and>
     (\<forall>x y. x < m_w bm \<and> y < m_h bm \<longrightarrow>
        cell bm' x y = (if y = 0 \<and> x \<in> set xs then BLACK else cell bm x y))"
proof (induction xs arbitrary: bm)
  case Nil
  then show ?case by simp
next
  case (Cons x xs)
  define bm1 where "bm1 = bm\<lparr>m_blocks := (m_blocks bm)[0 * m_w bm + x := BLACK]\<rparr>"
  note wf = Cons.prems(1)
  have x: "x < m_w bm" using Cons.prems(3) by simp
  have dims: "m_w bm1 = m_w bm" "m_h bm1 = m_h bm" by (simp_all add: bm1_def)
  have wf1: "wf_BlockMap bm1" unfolding bm1_def by (rule wf_update [OF wf])
  have wr: "set_at bm (int_of_size_t x) 0 BLACK = Inr bm1"
    unfolding bm1_def using set_at_nat [OF wf x Cons.prems(2), of BLACK]
    by (simp only: int_of_size_t_0)
  have c1: "cell bm1 x' y' = (if x' = x \<and> y' = 0 then BLACK else cell bm x' y')"
    if "x' < m_w bm" "y' < m_h bm" for x' y'
    unfolding bm1_def by (rule cell_update [OF wf x Cons.prems(2) that])
  from Cons.IH [OF wf1] Cons.prems(2,3) dims
  obtain bm' where bm': "clear_line xs bm1 = Inr bm'" "wf_BlockMap bm'"
      "m_w bm' = m_w bm" "m_h bm' = m_h bm"
      "\<forall>x y. x < m_w bm \<and> y < m_h bm \<longrightarrow>
         cell bm' x y = (if y = 0 \<and> x \<in> set xs then BLACK else cell bm1 x y)"
    by auto
  have "cell bm' x' y' = (if y' = 0 \<and> x' \<in> set (x # xs) then BLACK else cell bm x' y')"
    if "x' < m_w bm" "y' < m_h bm" for x' y'
    using bm'(5) that c1 [OF that] by auto
  then show ?case using bm'(1-4) wr by simp
qed

lemma erase_line_eq:
  assumes "wf_BlockMap bm" "n < m_h bm"
  shows "\<exists>bm'. erase_line (int n) bm = Inr bm' \<and> wf_BlockMap bm' \<and>
     m_w bm' = m_w bm \<and> m_h bm' = m_h bm \<and>
     (\<forall>x y. x < m_w bm \<and> y < m_h bm \<longrightarrow>
        cell bm' x y = (if y = 0 then BLACK else if y \<le> n then cell bm x (y - 1) else cell bm x y))"
proof -
  have "n < 2 ^ 31" using assms(2) wf_dims(3) [OF assms(1)] by simp
  then have "(n::nat) < 2 ^ 64" by (rule less_trans) simp
  then have n: "size_t_of_int (int n) = n" by (simp add: size_t_of_int_def)
  from shift_lines_eq [OF assms]
  obtain bm1 where bm1: "shift_lines (rev [1..<Suc n]) bm = Inr bm1" "wf_BlockMap bm1"
      "m_w bm1 = m_w bm" "m_h bm1 = m_h bm"
      "\<forall>x y. x < m_w bm \<and> y < m_h bm \<longrightarrow>
         cell bm1 x y = (if 0 < y \<and> y \<le> n then cell bm x (y - 1) else cell bm x y)"
    by blast
  have "0 < m_h bm1" "\<forall>x \<in> set [0..<m_w bm1]. x < m_w bm1" using assms(2) bm1(4) by simp_all
  from clear_line_eq [OF bm1(2) this]
  obtain bm' where bm': "clear_line [0..<m_w bm1] bm1 = Inr bm'" "wf_BlockMap bm'"
      "m_w bm' = m_w bm1" "m_h bm' = m_h bm1"
      "\<forall>x y. x < m_w bm1 \<and> y < m_h bm1 \<longrightarrow>
         cell bm' x y = (if y = 0 \<and> x \<in> set [0..<m_w bm1] then BLACK else cell bm1 x y)"
    by blast
  have "cell bm' x y = (if y = 0 then BLACK else if y \<le> n then cell bm x (y - 1) else cell bm x y)"
    if "x < m_w bm" "y < m_h bm" for x y
    using bm'(5) bm1(3,4,5) that by simp
  moreover have "erase_line (int n) bm = Inr bm'"
    unfolding erase_line_def n bm1(1) by (simp add: bm'(1))
  ultimately show ?thesis using bm'(2,3,4) bm1(3,4) by simp
qed

lemma erase_loop_append:
  "erase_loop (ys @ zs) st =
     (case erase_loop ys st of Inl e \<Rightarrow> Inl e | Inr st' \<Rightarrow> erase_loop zs st')"
proof (induction ys arbitrary: st)
  case Nil
  then show ?case by (cases st) simp
next
  case (Cons y ys)
  then show ?case by (cases st) (simp split: sum.splits bool.splits)
qed

lemma erase_loop_none_filled:
  assumes "wf_BlockMap bm" "\<forall>y \<in> set ys. y < m_h bm \<and> \<not> filled bm y"
  shows "erase_loop (map int ys) (bm, n) = Inr (bm, n)"
  using assms(2)
proof (induction ys)
  case Nil
  then show ?case by simp
next
  case (Cons y ys)
  then have "line_filled bm (int y) [0..<m_w bm] = Inr False"
    using line_filled_all [OF assms(1), of y] by simp
  then show ?case using Cons by simp
qed

lemma erase_loop_total:
  "wf_BlockMap bm \<Longrightarrow> \<forall>y \<in> set ys. y < m_h bm \<Longrightarrow>
   \<exists>bm' k. erase_loop (map int ys) (bm, n) = Inr (bm', k) \<and> wf_BlockMap bm' \<and>
     m_w bm' = m_w bm \<and> m_h bm' = m_h bm"
proof (induction ys arbitrary: bm n)
  case Nil
  then show ?case by simp
next
  case (Cons y ys)
  have y: "y < m_h bm" using Cons.prems(2) by simp
  have lf: "line_filled bm (int y) [0..<m_w bm] = Inr (filled bm y)"
    by (rule line_filled_all [OF Cons.prems(1) y])
  show ?case
  proof (cases "filled bm y")
    case True
    from erase_line_eq [OF Cons.prems(1) y]
    obtain bm1 where bm1: "erase_line (int y) bm = Inr bm1" "wf_BlockMap bm1"
        "m_w bm1 = m_w bm" "m_h bm1 = m_h bm"
      by blast
    have "\<forall>y \<in> set ys. y < m_h bm1" using Cons.prems(2) bm1(4) by simp
    from Cons.IH [OF bm1(2) this, of "n + 1"] bm1 lf True show ?thesis by simp
  next
    case False
    have "\<forall>y \<in> set ys. y < m_h bm" using Cons.prems(2) by simp
    from Cons.IH [OF Cons.prems(1) this, of n] lf False show ?thesis by simp
  qed
qed

lemma upto_from_0: "[0..int h - 1] = map int [0..<h]"
  using upto_as_map [of 0 "int h - 1"] by simp

lemma erase_start:
  assumes "wf_BlockMap bm"
  shows "int_of_size_t (size_t_of_int (int (m_h bm) - 1)) = int (m_h bm) - 1"
proof (cases "m_h bm = 0")
  case True
  then show ?thesis by (simp add: size_t_of_int_def int_of_size_t_def)
next
  case False
  have h: "m_h bm < 2 ^ 31" by (rule wf_dims(3) [OF assms])
  then have "int (m_h bm) - 1 < 2 ^ 64" by simp
  then have "size_t_of_int (int (m_h bm) - 1) = m_h bm - 1"
    using False by (simp add: size_t_of_int_def nat_diff_distrib')
  moreover have "m_h bm - 1 < 2 ^ 31" using h by simp
  ultimately show ?thesis using False by (simp add: int_of_size_t_small of_nat_diff)
qed

lemma eraseFilledLines_as_loop:
  assumes "wf_BlockMap bm"
  shows "eraseFilledLines bm = erase_loop (map int (rev [0..<m_h bm])) (bm, 0)"
  by (simp add: eraseFilledLines_def erase_start [OF assms] upto_from_0 rev_map)

lemma eraseFilledLines_total:
  assumes "wf_BlockMap bm"
  shows "\<exists>bm' k. eraseFilledLines bm = Inr (bm', k) \<and> wf_BlockMap bm' \<and>
     m_w bm' = m_w bm \<and> m_h bm' = m_h bm"
  unfolding eraseFilledLines_as_loop [OF assms]
  by (rule erase_loop_total [OF assms]) simp

lemma erase_single_line:
  assumes wf: "wf_BlockMap bm" and y: "y < m_h bm" and f: "filled bm y"
    and others: "\<forall>y' < m_h bm. y' \<noteq> y \<longrightarrow> \<not> filled bm y'"
  shows "\<exists>bm'. eraseFilledLines bm = Inr (bm', 1) \<and> wf_BlockMap bm' \<and>
           m_w bm' = m_w bm \<and> m_h bm' = m_h bm \<and>
           (\<forall>x y'. x < m_w bm \<and> y' < m_h bm \<longrightarrow>
              cell bm' x y' = (if y' = 0 then BLACK else if y' \<le> y then cell bm x (y' - 1)
                               else cell bm x y'))"
proof -
  from erase_line_eq [OF wf y]
  obtain bm1 where bm1: "erase_line (int y) bm = Inr bm1" "wf_BlockMap bm1"
      "m_w bm1 = m_w bm" "m_h bm1 = m_h bm"
      "\<forall>x y'. x < m_w bm \<and> y' < m_h bm \<longrightarrow>
         cell bm1 x y' = (if y' = 0 then BLACK else if y' \<le> y then cell bm x (y' - 1)
                          else cell bm x y')"
    by blast
  have split: "rev [0..<m_h bm] = rev [Suc y..<m_h bm] @ y # rev [0..<y]"
  proof -
    have "[0..<m_h bm] = [0..<y] @ [y..<m_h bm]"
      using y upt_add_eq_append [of 0 y "m_h bm - y"] by simp
    also have "[y..<m_h bm] = y # [Suc y..<m_h bm]"
      using y by (rule upt_conv_Cons)
    finally have "[0..<m_h bm] = [0..<y] @ y # [Suc y..<m_h bm]" .
    then show ?thesis by simp
  qed
  have above: "erase_loop (map int (rev [Suc y..<m_h bm])) (bm, 0) = Inr (bm, 0)"
    using others by (intro erase_loop_none_filled [OF wf]) auto
  have at: "erase_loop (int y # zs) (bm, 0) = erase_loop zs (bm1, 1)" for zs
    using line_filled_all [OF wf y] f bm1(1) by simp
  have not_filled: "\<not> filled bm1 y'" if "y' < y" for y'
  proof -
    have y'h: "y' < m_h bm" using that y by simp
    define y0 where "y0 = y' - 1"
    have "y0 < m_h bm" "y0 \<noteq> y" using that y by (simp_all add: y0_def)
    then have "\<not> filled bm y0" using others by simp
    then obtain x where x: "x < m_w bm" "cell bm x y0 = BLACK"
      using filled_cells [OF wf \<open>y0 < m_h bm\<close>] by auto
    have "cell bm1 x y' = BLACK"
      using bm1(5) x y'h that by (auto simp: y0_def)
    then show ?thesis
      using filled_cells [OF bm1(2), of y'] x(1) y'h bm1(3,4) by auto
  qed
  have below: "erase_loop (map int (rev [0..<y])) (bm1, 1) = Inr (bm1, 1)"
    using not_filled y bm1(4) by (intro erase_loop_none_filled [OF bm1(2)]) auto
  have "eraseFilledLines bm = Inr (bm1, 1)"
    unfolding eraseFilledLines_as_loop [OF wf] split
    by (simp add: erase_loop_append above at below del: erase_loop.simps)
  then show ?thesis using bm1(2-5) by blast
qed

text \<open>
  Claim C1 against the code. After a line is erased the outer loop continues with \<^verbatim>\<open>y--\<close>,
  so the line that has slid into index \<open>y\<close> is not examined again. On the 11 by 20 map whose
  lines 18 and 19 are filled (and line 17 holds one coloured cell) the call erases one line
  only and returns 1: line 19 of the result is the former line 18 and is still filled, the
  former line 17 has moved down by one line, not by two.
\<close>

theorem eraseFilledLines_adjacent_lines:
  "eraseFilledLines \<lparr>m_w = 11, m_h = 20,
      m_blocks = replicate 187 BLACK @ [RED] @ replicate 10 BLACK @ replicate 22 GREEN\<rparr> =
   Inr (\<lparr>m_w = 11, m_h = 20,
      m_blocks = replicate 198 BLACK @ [RED] @ replicate 10 BLACK @ replicate 11 GREEN\<rparr>, 1)"
  by code_simp

lemma single_example_wf:
  "wf_BlockMap \<lparr>m_w = 11, m_h = 20,
      m_blocks = replicate 198 BLACK @ [RED] @ replicate 10 BLACK @ replicate 11 GREEN\<rparr>"
  by (simp add: wf_BlockMap_def)

lemma single_example_filled:
  "filled \<lparr>m_w = 11, m_h = 20,
      m_blocks = replicate 198 BLACK @ [RED] @ replicate 10 BLACK @ replicate 11 GREEN\<rparr> 19"
  by code_simp

lemma single_example_others:
  "\<forall>y' \<in> set [0..<20]. y' \<noteq> 19 \<longrightarrow> \<not> filled \<lparr>m_w = 11, m_h = 20,
      m_blocks = replicate 198 BLACK @ [RED] @ replicate 10 BLACK @ replicate 11 GREEN\<rparr> y'"
  by code_simp

lemma single_example_result:
  "eraseFilledLines \<lparr>m_w = 11, m_h = 20,
      m_blocks = replicate 198 BLACK @ [RED] @ replicate 10 BLACK @ replicate 11 GREEN\<rparr> =
   Inr (\<lparr>m_w = 11, m_h = 20,
      m_blocks = replicate 209 BLACK @ [RED] @ replicate 10 BLACK\<rparr>, 1)"
  by code_simp

text \<open>
  Claim C6. On a well-formed map with exactly one filled line, at index \<open>y\<close>,
  \<^verbatim>\<open>eraseFilledLines\<close> returns 1; in the map it leaves, line 0 is all \<open>BLACK\<close>, each line
  \<open>y'\<close> with \<open>0 < y' \<le> y\<close> is the former line \<open>y' - 1\<close>, and each line below \<open>y\<close> is
  unchanged; the dimensions are unchanged.
\<close>

theorem eraseFilledLines_single_line:
  assumes "wf_BlockMap bm" and "y < m_h bm" and "filled bm y"
    and "\<forall>y' < m_h bm. y' \<noteq> y \<longrightarrow> \<not> filled bm y'"
  shows "\<exists>bm'. eraseFilledLines bm = Inr (bm', 1) \<and>
           m_w bm' = m_w bm \<and> m_h bm' = m_h bm \<and>
           length (m_blocks bm') = length (m_blocks bm) \<and>
           line bm' 0 = replicate (m_w bm) BLACK \<and>
           (\<forall>y'. 0 < y' \<and> y' \<le> y \<longrightarrow> line bm' y' = line bm (y' - 1)) \<and>
           (\<forall>y'. y < y' \<and> y' < m_h bm \<longrightarrow> line bm' y' = line bm y')"
proof -
  from erase_single_line [OF assms]
  obtain bm' where bm': "eraseFilledLines bm = Inr (bm', 1)" "wf_BlockMap bm'"
      "m_w bm' = m_w bm" "m_h bm' = m_h bm"
      "\<forall>x y'. x < m_w bm \<and> y' < m_h bm \<longrightarrow>
         cell bm' x y' = (if y' = 0 then BLACK else if y' \<le> y then cell bm x (y' - 1)
                          else cell bm x y')"
    by blast
  have len: "length (m_blocks bm') = length (m_blocks bm)"
    using wf_dims(1) [OF bm'(2)] wf_dims(1) [OF assms(1)] bm'(3,4) by simp
  have l: "line bm' y' = map (\<lambda>x. cell bm' x y') [0..<m_w bm]" if "y' < m_h bm" for y'
    using line_cells [OF bm'(2), of y'] that bm'(3,4) by simp
  have top: "line bm' 0 = replicate (m_w bm) BLACK"
  proof -
    have "map (\<lambda>x. cell bm' x 0) [0..<m_w bm] = map (\<lambda>x. BLACK) [0..<m_w bm]"
      using bm'(5) assms(2) by (intro map_cong) auto
    then show ?thesis using l [of 0] assms(2) by (simp add: map_replicate_const)
  qed
  have shifted: "line bm' y' = line bm (y' - 1)" if "0 < y'" "y' \<le> y" for y'
  proof -
    have y'h: "y' < m_h bm" "y' - 1 < m_h bm" using that assms(2) by simp_all
    have "map (\<lambda>x. cell bm' x y') [0..<m_w bm] = map (\<lambda>x. cell bm x (y' - 1)) [0..<m_w bm]"
      using bm'(5) y'h that by (intro map_cong) auto
    then show ?thesis using l [OF y'h(1)] line_cells [OF assms(1) y'h(2)] by simp
  qed
  have kept: "line bm' y' = line bm y'" if "y < y'" "y' < m_h bm" for y'
  proof -
    have "map (\<lambda>x. cell bm' x y') [0..<m_w bm] = map (\<lambda>x. cell bm x y') [0..<m_w bm]"
      using bm'(5) that by (intro map_cong) auto
    then show ?thesis using l [OF that(2)] line_cells [OF assms(1) that(2)] by simp
  qed
  show ?thesis using bm'(1,3,4) len top shifted kept by blast
qed

theorem eraseFilledLines_single_line_witness:
  "wf_BlockMap \<lparr>m_w = 11, m_h = 20,
      m_blocks = replicate 198 BLACK @ [RED] @ replicate 10 BLACK @ replicate 11 GREEN\<rparr> \<and>
   filled \<lparr>m_w = 11, m_h = 20,
      m_blocks = replicate 198 BLACK @ [RED] @ replicate 10 BLACK @ replicate 11 GREEN\<rparr> 19 \<and>
   eraseFilledLines \<lparr>m_w = 11, m_h = 20,
      m_blocks = replicate 198 BLACK @ [RED] @ replicate 10 BLACK @ replicate 11 GREEN\<rparr> =
   Inr (\<lparr>m_w = 11, m_h = 20,
      m_blocks = replicate 209 BLACK @ [RED] @ replicate 10 BLACK\<rparr>, 1)"
proof -
  let ?bm = "\<lparr>m_w = 11, m_h = 20,
      m_blocks = replicate 198 BLACK @ [RED] @ replicate 10 BLACK @ replicate 11 GREEN\<rparr>"
  have y: "19 < m_h ?bm" by simp
  have others: "\<forall>y' < m_h ?bm. y' \<noteq> 19 \<longrightarrow> \<not> filled ?bm y'"
    using single_example_others by simp
  from eraseFilledLines_single_line [OF single_example_wf y single_example_filled others]
  obtain bm' where "eraseFilledLines ?bm = Inr (bm', 1)" by blast
  then show ?thesis
    using single_example_wf single_example_filled single_example_result by simp
qed

section \<open>The game loop\<close>

lemma set_at_frame:
  assumes "set_at bm x y c = Inr bm'"
  shows "m_w bm' = m_w bm \<and> m_h bm' = m_h bm \<and> length (m_blocks bm') = length (m_blocks bm)"
  using assms by (auto simp: set_at_def Let_def split: if_splits)

lemma putBlock_cells_frame:
  "putBlock_cells b col cs bm = Inr bm' \<Longrightarrow>
   m_w bm' = m_w bm \<and> m_h bm' = m_h bm \<and> length (m_blocks bm') = length (m_blocks bm)"
proof (induction cs arbitrary: bm)
  case Nil
  then show ?case by simp
next
  case (Cons c cs)
  obtain x y where c: "c = (x, y)" by (cases c)
  show ?case
  proof (cases "exist b (int_of_size_t x) (int_of_size_t y)")
    case None
    then show ?thesis using Cons.prems c by simp
  next
    case (Some v)
    show ?thesis
    proof (cases v)
      case False
      then show ?thesis using Cons c Some by simp
    next
      case True
      then obtain bm1 where bm1: "set_at bm (int_of_size_t x) (int_of_size_t y) col = Inr bm1"
          "putBlock_cells b col cs bm1 = Inr bm'"
        using Cons.prems c Some by (auto split: sum.splits)
      from Cons.IH [OF bm1(2)] set_at_frame [OF bm1(1)] show ?thesis by simp
    qed
  qed
qed

lemma putBlock_wf:
  assumes "putBlock bm b = Inr bm'" "wf_BlockMap bm"
  shows "wf_BlockMap bm'"
proof -
  obtain sx sy ex ey where r: "getRange b = (sx, sy, ex, ey)" by (cases "getRange b")
  define cs where "cs = concat (map (\<lambda>y. map (\<lambda>x. (x, y))
      [size_t_of_int (max 0 sx)..<Suc (size_t_of_int (min (int_of_size_t (m_w bm)) ex))])
      [size_t_of_int (max 0 sy)..<Suc (size_t_of_int (min (int_of_size_t (m_h bm)) ey))])"
  have "putBlock_cells b (getColor b) cs bm = Inr bm'"
  proof (cases "putBlock_cells b (getColor b) cs bm")
    case (Inl e)
    then show ?thesis using assms(1) unfolding putBlock_def r Let_def prod.case cs_def by simp
  next
    case (Inr bm2)
    then have "bm2 = bm'"
      using assms(1) unfolding putBlock_def r Let_def prod.case cs_def
      by (simp split: if_splits)
    then show ?thesis using Inr by simp
  qed
  from putBlock_cells_frame [OF this] assms(2) show ?thesis by (simp add: wf_BlockMap_def)
qed

lemma try_key_frame:
  assumes "wf_BlockMap (m_block_map s)"
  shows "\<exists>s'. try_key a s = Inr s' \<and> m_block_map s' = m_block_map s \<and>
           next_block s' = next_block s \<and> n_erased_lines s' = n_erased_lines s"
proof -
  from TryBlockAction_eq [OF assms, of a "block s"]
  obtain ok b' where "TryBlockAction (block s) (m_block_map s) a = Inr (ok, b', m_block_map s)"
    by blast
  then show ?thesis by (simp add: try_key_def)
qed

lemma when_try_key_frame:
  assumes "wf_BlockMap (m_block_map s)"
  shows "\<exists>s'. (if c then try_key a s else Inr s) = Inr s' \<and> m_block_map s' = m_block_map s \<and>
           next_block s' = next_block s \<and> n_erased_lines s' = n_erased_lines s"
  using try_key_frame [OF assms, of a] by (cases c) simp_all

lemma key_step_frame:
  assumes "wf_BlockMap (m_block_map s)"
  shows "\<exists>s'. (key_step key s = Inr (Running s') \<or> key_step key s = Inr (Stopped Quit s')) \<and>
           m_block_map s' = m_block_map s \<and> next_block s' = next_block s \<and>
           n_erased_lines s' = n_erased_lines s"
proof (cases key)
  case None
  then show ?thesis by (simp add: key_step_def)
next
  case (Some k)
  from when_try_key_frame [OF assms, of "k = CHR '' '' \<or> k = CHR ''r''" Rotate]
  obtain s1 where s1: "(if k = CHR '' '' \<or> k = CHR ''r'' then try_key Rotate s else Inr s) = Inr s1"
      "m_block_map s1 = m_block_map s"
      "next_block s1 = next_block s" "n_erased_lines s1 = n_erased_lines s"
    by blast
  have wf1: "wf_BlockMap (m_block_map s1)" using assms s1(2) by simp
  from when_try_key_frame [OF wf1, of "k = CHR ''h''" "Move (- 1) 0"]
  obtain s2 where s2: "(if k = CHR ''h'' then try_key (Move (- 1) 0) s1 else Inr s1) = Inr s2"
      "m_block_map s2 = m_block_map s1"
      "next_block s2 = next_block s1" "n_erased_lines s2 = n_erased_lines s1"
    by blast
  have wf2: "wf_BlockMap (m_block_map s2)" using wf1 s2(2) by simp
  from when_try_key_frame [OF wf2, of "k = CHR ''l''" "Move 1 0"]
  obtain s3 where s3: "(if k = CHR ''l'' then try_key (Move 1 0) s2 else Inr s2) = Inr s3"
      "m_block_map s3 = m_block_map s2"
      "next_block s3 = next_block s2" "n_erased_lines s3 = n_erased_lines s2"
    by blast
  have wf3: "wf_BlockMap (m_block_map s3)" using wf2 s3(2) by simp
  from when_try_key_frame [OF wf3, of "k = CHR ''j''" "Move 0 1"]
  obtain s4 where s4: "(if k = CHR ''j'' then try_key (Move 0 1) s3 else Inr s3) = Inr s4"
      "m_block_map s4 = m_block_map s3"
      "next_block s4 = next_block s3" "n_erased_lines s4 = n_erased_lines s3"
    by blast
  have "key_step key s = (if k = CHR ''q'' then Inr (Stopped Quit s4) else Inr (Running s4))"
    unfolding key_step_def Some option.case s1(1) sum.case s2(1) s3(1) s4(1) ..
  moreover have "m_block_map s4 = m_block_map s" "next_block s4 = next_block s"
      "n_erased_lines s4 = n_erased_lines s"
    using s1(2-4) s2(2-4) s3(2-4) s4(2-4) by simp_all
  ultimately show ?thesis by (cases "k = CHR ''q''") auto
qed

text \<open>The spawn step of a pass either lets the pass go on or ends the game.\<close>

lemma generate_total: "\<exists>b. generate g r = Inr b"
proof -
  have "0 \<le> shape_idx r" "shape_idx r < 7" using shape_idx_range [of r] by simp_all
  then have "shape_idx r = 0 \<or> shape_idx r = 1 \<or> shape_idx r = 2 \<or> shape_idx r = 3 \<or>
      shape_idx r = 4 \<or> shape_idx r = 5 \<or> shape_idx r = 6"
    by arith
  then have "\<exists>sh. Shape_of_idx (shape_idx r) = Inr sh"
    by (elim disjE) (simp_all add: Shape_of_idx_def)
  then show ?thesis by (auto simp: generate_def)
qed

lemma spawn_step_total:
  assumes "wf_BlockMap (m_block_map s)"
  shows "\<exists>s1. spawn_step rnd s = Inr (Running s1) \<or> spawn_step rnd s = Inr (Stopped GameOver s1)"
proof (cases "next_block s")
  case False
  then show ?thesis by (simp add: spawn_step_def)
next
  case True
  obtain b where b: "generate (m_rand_block_gen s) rnd = Inr b"
    using generate_total by blast
  obtain r where r: "isPuttable (m_block_map s) b = Inr r"
    using isPuttable_eq [OF assms] by blast
  show ?thesis using True b r by (cases r) (simp_all add: spawn_step_def)
qed

lemma spawn_step_frame:
  assumes "spawn_step rnd s = Inr (Running s1)"
  shows "m_block_map s1 = m_block_map s \<and> \<not> next_block s1 \<and>
         n_erased_lines s1 = n_erased_lines s"
proof (cases "next_block s")
  case False
  then show ?thesis using assms by (auto simp: spawn_step_def)
next
  case True
  then show ?thesis
    using assms by (auto simp: spawn_step_def Let_def split: sum.splits bool.splits)
qed

lemma lock_pass:
  assumes wf: "wf_BlockMap (m_block_map s)"
    and sp: "spawn_step rnd s = Inr (Running s1)"
    and down: "isPuttable (m_block_map s1) (move 0 1 (block s1)) = Inr False"
  shows "\<exists>bm1 k. eraseFilledLines (m_block_map s1) = Inr (bm1, k) \<and>
           m_w bm1 = m_w (m_block_map s) \<and> m_h bm1 = m_h (m_block_map s) \<and>
           (\<forall>e. putBlock bm1 (block s1) = Inl e \<longrightarrow> run_iter rnd True key s = Inl e) \<and>
           (\<forall>bm2. putBlock bm1 (block s1) = Inr bm2 \<longrightarrow>
              (\<exists>s'. (run_iter rnd True key s = Inr (Running s') \<or>
                     run_iter rnd True key s = Inr (Stopped Quit s')) \<and>
                    m_block_map s' = bm2 \<and> next_block s' \<and>
                    n_erased_lines s' = n_erased_lines s + k))"
proof -
  have fr: "m_block_map s1 = m_block_map s" "\<not> next_block s1"
      "n_erased_lines s1 = n_erased_lines s"
    using spawn_step_frame [OF sp] by simp_all
  have wf1: "wf_BlockMap (m_block_map s1)" using wf fr(1) by simp
  obtain bm1 k where er: "eraseFilledLines (m_block_map s1) = Inr (bm1, k)" "wf_BlockMap bm1"
      "m_w bm1 = m_w (m_block_map s1)" "m_h bm1 = m_h (m_block_map s1)"
    using eraseFilledLines_total [OF wf1] by blast
  have "TryBlockAction (block s1) (m_block_map s1) (Move 0 1)
          = Inr (False, block s1, m_block_map s1)"
    using TryBlockAction_eq [OF wf1, of "Move 0 1" "block s1"] down by simp
  then have gr: "gravity_step True s1 =
      Inr (s1\<lparr>block := block s1, next_block := True, m_block_map := bm1,
              n_erased_lines := n_erased_lines s1 + k\<rparr>)"
    by (simp add: gravity_step_def er(1))
  define s2 where "s2 = s1\<lparr>block := block s1, next_block := True, m_block_map := bm1,
              n_erased_lines := n_erased_lines s1 + k\<rparr>"
  have run: "run_iter rnd True key s =
      (case draw_step s2 of Inl e \<Rightarrow> Inl e | Inr s3 \<Rightarrow> key_step key s3)"
    using sp gr by (simp add: run_iter_def s2_def)
  have fault: "run_iter rnd True key s = Inl e" if "putBlock bm1 (block s1) = Inl e" for e
    using that run by (simp add: draw_step_def s2_def)
  have commit: "\<exists>s'. (run_iter rnd True key s = Inr (Running s') \<or>
                     run_iter rnd True key s = Inr (Stopped Quit s')) \<and>
                    m_block_map s' = bm2 \<and> next_block s' \<and>
                    n_erased_lines s' = n_erased_lines s + k"
    if put: "putBlock bm1 (block s1) = Inr bm2" for bm2
  proof -
    define s3 where "s3 = s2\<lparr>m_block_map := bm2\<rparr>"
    have dr: "draw_step s2 = Inr s3" using put by (simp add: draw_step_def s2_def s3_def)
    have "wf_BlockMap (m_block_map s3)" using putBlock_wf [OF put er(2)] by (simp add: s3_def)
    from key_step_frame [OF this, of key]
    obtain s' where s': "key_step key s3 = Inr (Running s') \<or>
          key_step key s3 = Inr (Stopped Quit s')"
        "m_block_map s' = bm2" "next_block s'" "n_erased_lines s' = n_erased_lines s + k"
      using fr(3) by (auto simp: s3_def s2_def)
    have "run_iter rnd True key s = key_step key s3" using run dr by simp
    then show ?thesis using s' by metis
  qed
  show ?thesis using er(1,3,4) fr(1) fault commit by auto
qed

lemma I_left_down:
  "isPuttable (new_BlockMap 11 20)
     (move 0 1 \<lparr>shape = BlockShape0, m_x = - 2, m_y = 0, m_rot = ROT0\<rparr>) = Inr False"
  by code_simp

lemma lock_pass_fault_example:
  "run_iter rnd True key
     \<lparr>m_block_map = new_BlockMap 11 20, m_rand_block_gen = \<lparr>gen_x = 5, gen_y = 0\<rparr>,
       n_erased_lines = 0, next_block = False,
       block = \<lparr>shape = BlockShape0, m_x = - 2, m_y = 0, m_rot = ROT0\<rparr>\<rparr> = Inl OutOfRange"
proof -
  let ?s = "\<lparr>m_block_map = new_BlockMap 11 20, m_rand_block_gen = \<lparr>gen_x = 5, gen_y = 0\<rparr>,
       n_erased_lines = 0, next_block = False,
       block = \<lparr>shape = BlockShape0, m_x = - 2, m_y = 0, m_rot = ROT0\<rparr>\<rparr>"
  have wf: "wf_BlockMap (m_block_map ?s)" using wf_new_11_20 by simp
  have sp: "spawn_step rnd ?s = Inr (Running ?s)" by (simp add: spawn_step_def)
  have down: "isPuttable (m_block_map ?s) (move 0 1 (block ?s)) = Inr False"
    using I_left_down by simp
  from lock_pass [OF wf sp down, of key]
  obtain bm1 where bm1: "m_w bm1 = 11" "m_h bm1 = 20"
      "\<forall>e. putBlock bm1 (block ?s) = Inl e \<longrightarrow> run_iter rnd True key ?s = Inl e"
    by (auto simp: new_11_20_dims)
  have "putBlock bm1 (block ?s) = Inl OutOfRange"
    using I_left_putBlock [OF bm1(1,2)] by simp
  then show ?thesis using bm1(3) by blast
qed












end
